theory Spec2Isabelle
  imports Complex_Main
begin

section \<open>Board model (robot\_brain.py)\<close>

text \<open>
  A board is the Python value \<^verbatim>\<open>List[List[Optional[str]]]\<close>: a list of rows, each a list of
  cells, a cell being \<^verbatim>\<open>None\<close> or a player identifier. Row 0 is the top of the grid, row 9 the
  bottom. The reads \<^verbatim>\<open>board[r][c]\<close> of the source are \<open>b ! r ! c\<close>; they agree with Python on
  every board of the data model (\<open>wf_board\<close>: ten rows of ten cells) at indices inside the grid,
  which is where the source reads (every read is under a \<^verbatim>\<open>range(ROWS)\<close>/\<^verbatim>\<open>range(COLS)\<close> loop or
  behind \<^verbatim>\<open>in_bounds\<close>). The one write, in \<^verbatim>\<open>place_disc\<close>, has Python's IndexError written out.
\<close>

type_synonym cell = "string option"
type_synonym board = "cell list list"

definition ROWS :: nat where "ROWS = 10"
definition COLS :: nat where "COLS = 10"
definition CONNECT_N :: nat where "CONNECT_N = 4"
definition MAX_DEPTH :: int where "MAX_DEPTH = 4"
definition WIN_SCORE :: real where "WIN_SCORE = 10000"

definition wf_board :: "board \<Rightarrow> bool" where
  "wf_board b = (length b = ROWS \<and> list_all (\<lambda>row. length row = COLS) b)"

text \<open>\<^verbatim>\<open>in_bounds(row, col)\<close>: \<^verbatim>\<open>0 <= row < ROWS and 0 <= col < COLS\<close>, on Python integers.\<close>

definition in_bounds :: "int \<Rightarrow> int \<Rightarrow> bool" where
  "in_bounds row col = (0 \<le> row \<and> row < int ROWS \<and> 0 \<le> col \<and> col < int COLS)"

text \<open>
  \<^verbatim>\<open>find_drop_row\<close>: \<^verbatim>\<open>for row in range(ROWS - 1, -1, -1): if board[row][col] is None: return row\<close>,
  then \<^verbatim>\<open>return None\<close>. \<open>drop_scan b col n\<close> is the loop with the rows \<open>n - 1, ..., 0\<close> still to
  visit.
\<close>

primrec drop_scan :: "board \<Rightarrow> nat \<Rightarrow> nat \<Rightarrow> nat option" where
  "drop_scan b col 0 = None"
| "drop_scan b col (Suc row) = (if b ! row ! col = None then Some row else drop_scan b col row)"

definition find_drop_row :: "board \<Rightarrow> nat \<Rightarrow> nat option" where
  "find_drop_row b col = drop_scan b col ROWS"

text \<open>\<^verbatim>\<open>board_is_full\<close>: \<^verbatim>\<open>all(board[0][c] is not None for c in range(COLS))\<close>.\<close>

definition board_is_full :: "board \<Rightarrow> bool" where
  "board_is_full b = list_all (\<lambda>c. b ! 0 ! c \<noteq> None) [0..<COLS]"

text \<open>
  \<^verbatim>\<open>place_disc\<close>: \<^verbatim>\<open>copy = [list(r) for r in board]; copy[row][col] = player; return copy\<close>.
  The value returned is the board updated at one cell; the assignment raises IndexError
  (here \<open>None\<close>) when the row or the column does not exist. Rows and columns reach this
  function from \<^verbatim>\<open>find_drop_row\<close> and \<^verbatim>\<open>range(COLS)\<close>, so they are naturals.
\<close>

definition place_disc :: "board \<Rightarrow> nat \<Rightarrow> nat \<Rightarrow> string \<Rightarrow> board option" where
  "place_disc b row col player =
     (if row < length b \<and> col < length (b ! row)
      then Some (b[row := (b ! row)[col := Some player]])
      else None)"

text \<open>The gravity invariant of the data model, for one column: nothing empty below a disc.\<close>

definition gravity_col :: "board \<Rightarrow> nat \<Rightarrow> bool" where
  "gravity_col b col =
     list_all (\<lambda>r. list_all (\<lambda>r'. b ! r ! col \<noteq> None \<longrightarrow> b ! r' ! col \<noteq> None) [r..<ROWS])
       [0..<ROWS]"

text \<open>A board literal for examples: the empty grid, and a grid with given cells set.\<close>

definition empty_board :: board where
  "empty_board = replicate 10 (replicate 10 None)"

fun put :: "board \<Rightarrow> nat \<times> nat \<times> string \<Rightarrow> board" where
  "put b (row, col, player) = b[row := (b ! row)[col := Some player]]"

definition board_of :: "(nat \<times> nat \<times> string) list \<Rightarrow> board" where
  "board_of discs = foldl put empty_board discs"

section \<open>The heap under \<^verbatim>\<open>place_disc\<close>\<close>

text \<open>
  Python lists are objects: a board is a reference to a list of references to row lists.
  The heap is a list of objects, an address an index into it, allocation an append.
  \<open>copy_rows\<close> is \<^verbatim>\<open>[list(r) for r in board]\<close>: one fresh row object per row of the board;
  \<open>place_disc_heap\<close> then allocates the outer list and runs \<^verbatim>\<open>copy[row][col] = player\<close>
  on the heap, where it raises IndexError (\<open>None\<close>) as Python does.
\<close>

datatype obj = Row "cell list" | Grid "nat list"

type_synonym heap = "obj list"

definition get_row :: "heap \<Rightarrow> nat \<Rightarrow> cell list option" where
  "get_row h a = (if a < length h then (case h ! a of Row cs \<Rightarrow> Some cs | Grid _ \<Rightarrow> None) else None)"

definition get_grid :: "heap \<Rightarrow> nat \<Rightarrow> nat list option" where
  "get_grid h a = (if a < length h then (case h ! a of Grid rs \<Rightarrow> Some rs | Row _ \<Rightarrow> None) else None)"

definition read_board :: "heap \<Rightarrow> nat \<Rightarrow> board option" where
  "read_board h a = (case get_grid h a of None \<Rightarrow> None | Some rs \<Rightarrow> those (map (get_row h) rs))"

fun copy_rows :: "heap \<Rightarrow> nat list \<Rightarrow> (nat list \<times> heap) option" where
  "copy_rows h [] = Some ([], h)"
| "copy_rows h (a # as) =
     (case get_row h a of
        None \<Rightarrow> None
      | Some cs \<Rightarrow>
          (case copy_rows (h @ [Row cs]) as of
             None \<Rightarrow> None
           | Some (refs, h') \<Rightarrow> Some (length h # refs, h')))"

definition place_disc_heap :: "heap \<Rightarrow> nat \<Rightarrow> nat \<Rightarrow> nat \<Rightarrow> string \<Rightarrow> (nat \<times> heap) option" where
  "place_disc_heap h board row col player =
     (case get_grid h board of
        None \<Rightarrow> None
      | Some rs \<Rightarrow>
          (case copy_rows h rs of
             None \<Rightarrow> None
           | Some (refs, h1) \<Rightarrow>
               (let copy = length h1; h2 = h1 @ [Grid refs] in
                if row < length refs then
                  (case get_row h2 (refs ! row) of
                     None \<Rightarrow> None
                   | Some cs \<Rightarrow>
                       if col < length cs
                       then Some (copy, h2[refs ! row := Row (cs[col := Some player])])
                       else None)
                else None)))"

text \<open>A heap holding one board: its rows at the addresses \<open>0, 1, ...\<close>, the grid after them.\<close>

definition heap_of :: "board \<Rightarrow> heap" where
  "heap_of b = map Row b @ [Grid [0..<length b]]"

section \<open>Gravity drop\<close>

lemma drop_scan_Some:
  "drop_scan b col n = Some r \<Longrightarrow> r < n \<and> b ! r ! col = None \<and> (\<forall>r'. r < r' \<and> r' < n \<longrightarrow> b ! r' ! col \<noteq> None)"
proof (induction n)
  case 0
  then show ?case by simp
next
  case (Suc n)
  show ?case
  proof (cases "b ! n ! col = None")
    case True
    with Suc.prems have "r = n" by simp
    with True show ?thesis by auto
  next
    case False
    with Suc.prems have "drop_scan b col n = Some r" by simp
    from Suc.IH[OF this] False show ?thesis
      by (auto simp: less_Suc_eq)
  qed
qed

lemma drop_scan_None:
  "drop_scan b col n = None \<longleftrightarrow> (\<forall>r < n. b ! r ! col \<noteq> None)"
  by (induction n) (auto simp: less_Suc_eq)

lemma gravity_colD:
  assumes "gravity_col b col" "r \<le> r'" "r' < ROWS" "b ! r ! col \<noteq> None"
  shows "b ! r' ! col \<noteq> None"
proof -
  from assms(1)
  have "\<forall>x\<in>{0..<ROWS}. \<forall>y\<in>{x..<ROWS}. b ! x ! col \<noteq> None \<longrightarrow> b ! y ! col \<noteq> None"
    unfolding gravity_col_def list_all_iff by simp
  moreover have "r \<in> {0..<ROWS}" "r' \<in> {r..<ROWS}" using assms(2,3) by auto
  ultimately show ?thesis using assms(4) by blast
qed

lemma find_drop_row_Some:
  "find_drop_row b col = Some r \<Longrightarrow> r < ROWS \<and> b ! r ! col = None"
  using drop_scan_Some[of b col ROWS r] by (simp add: find_drop_row_def)

text \<open>
  C3. \<^verbatim>\<open>find_drop_row\<close> returns the highest-numbered empty row of the column: that row is
  empty and every row below it (greater index) is occupied, and the result is none exactly
  when the column has no empty cell. On a column of a board of the data model, which
  satisfies the gravity invariant (no empty cell below a disc), it returns none if and only
  if the topmost cell (row 0) of the column is occupied.
\<close>

theorem find_drop_row_highest_empty:
  "(find_drop_row b col = Some r \<longrightarrow>
      r < ROWS \<and> b ! r ! col = None \<and> (\<forall>r'. r < r' \<and> r' < ROWS \<longrightarrow> b ! r' ! col \<noteq> None))
   \<and> (find_drop_row b col = None \<longleftrightarrow> (\<forall>r < ROWS. b ! r ! col \<noteq> None))
   \<and> (gravity_col b col \<longrightarrow> (find_drop_row b col = None \<longleftrightarrow> b ! 0 ! col \<noteq> None))"
proof (intro conjI impI)
  assume "find_drop_row b col = Some r"
  then show "r < ROWS" "b ! r ! col = None" "\<forall>r'. r < r' \<and> r' < ROWS \<longrightarrow> b ! r' ! col \<noteq> None"
    using drop_scan_Some[of b col ROWS r] by (simp_all add: find_drop_row_def)
next
  show "find_drop_row b col = None \<longleftrightarrow> (\<forall>r < ROWS. b ! r ! col \<noteq> None)"
    by (simp add: find_drop_row_def drop_scan_None)
next
  assume g: "gravity_col b col"
  have "(\<forall>r < ROWS. b ! r ! col \<noteq> None) \<longleftrightarrow> b ! 0 ! col \<noteq> None"
  proof
    assume "\<forall>r < ROWS. b ! r ! col \<noteq> None"
    then show "b ! 0 ! col \<noteq> None" by (simp add: ROWS_def)
  next
    assume top: "b ! 0 ! col \<noteq> None"
    show "\<forall>r < ROWS. b ! r ! col \<noteq> None"
    proof (intro allI impI)
      fix r assume "r < ROWS"
      with gravity_colD[OF g, of 0 r] top show "b ! r ! col \<noteq> None"
        by simp
    qed
  qed
  then show "find_drop_row b col = None \<longleftrightarrow> b ! 0 ! col \<noteq> None"
    by (simp add: find_drop_row_def drop_scan_None)
qed

theorem find_drop_row_highest_empty_witness:
  "find_drop_row (board_of [(9, 0, ''P1''), (8, 0, ''P2'')]) 0 = Some 7
   \<and> 7 < ROWS
   \<and> board_of [(9, 0, ''P1''), (8, 0, ''P2'')] ! 7 ! 0 = None
   \<and> board_of [(9, 0, ''P1''), (8, 0, ''P2'')] ! 8 ! 0 \<noteq> None
   \<and> gravity_col (board_of [(9, 0, ''P1''), (8, 0, ''P2'')]) 0
   \<and> find_drop_row (board_of [(9, 0, ''P1''), (8, 0, ''P2'')]) 0 \<noteq> None
   \<and> board_of [(9, 0, ''P1''), (8, 0, ''P2'')] ! 0 ! 0 = None"
proof -
  define b where "b = board_of [(9, 0, ''P1''), (8, 0, ''P2'')]"
  have d: "find_drop_row b 0 = Some 7" unfolding b_def by code_simp
  have g: "gravity_col b 0" unfolding b_def by code_simp
  have r: "(7::nat) < 8 \<and> 8 < ROWS" by (simp add: ROWS_def)
  from find_drop_row_highest_empty[of b 0 7] d g r
  have "find_drop_row b 0 = Some 7 \<and> 7 < ROWS \<and> b ! 7 ! 0 = None \<and> b ! 8 ! 0 \<noteq> None
        \<and> gravity_col b 0 \<and> find_drop_row b 0 \<noteq> None \<and> b ! 0 ! 0 = None"
    by (metis option.distinct(1))
  then show ?thesis unfolding b_def .
qed

section \<open>Copy on write\<close>

lemma get_row_append: "a < length h \<Longrightarrow> get_row (h @ h') a = get_row h a"
  by (simp add: get_row_def nth_append)

lemma those_map_Some:
  "those (map f xs) = Some ys \<longleftrightarrow> length ys = length xs \<and> (\<forall>i < length xs. f (xs ! i) = Some (ys ! i))"
proof (induction xs arbitrary: ys)
  case Nil
  then show ?case by auto
next
  case (Cons x xs)
  show ?case
  proof (cases ys)
    case Nil
    then show ?thesis by (auto split: option.splits)
  next
    case (Cons y ys')
    then show ?thesis using Cons.IH[of ys']
      by (auto split: option.splits simp: nth_Cons split: nat.splits)
  qed
qed

lemma copy_rows_Some:
  assumes "those (map (get_row h) rs) = Some b"
  shows "copy_rows h rs = Some ([length h ..< length h + length rs], h @ map Row b)"
  using assms
proof (induction rs arbitrary: h b)
  case Nil
  then show ?case by simp
next
  case (Cons a rs)
  from Cons.prems obtain cs b' where a: "get_row h a = Some cs"
    and b': "those (map (get_row h) rs) = Some b'" and b: "b = cs # b'"
    by (auto split: option.splits)
  have lt: "\<forall>i < length rs. rs ! i < length h"
    using b' by (auto simp: those_map_Some get_row_def split: if_splits)
  have "those (map (get_row (h @ [Row cs])) rs) = Some b'"
    using b' lt by (simp add: those_map_Some get_row_append)
  from Cons.IH[OF this]
  have "copy_rows (h @ [Row cs]) rs =
          Some ([Suc (length h) ..< Suc (length h) + length rs], h @ Row cs # map Row b')"
    by simp
  moreover have "[length h ..< length h + length (a # rs)] =
          length h # [Suc (length h) ..< Suc (length h) + length rs]"
    by (simp add: upt_conv_Cons del: upt_Suc)
  ultimately show ?case using a b by simp
qed

lemma read_board_Some:
  "read_board h a = Some b \<longleftrightarrow>
     (\<exists>rs. get_grid h a = Some rs \<and> those (map (get_row h) rs) = Some b)"
  by (auto simp: read_board_def split: option.splits)

lemma place_disc_heap_result:
  assumes rb: "read_board h a = Some b" and row: "row < length b" and col: "col < length (b ! row)"
  shows "place_disc_heap h a row col player =
           Some (length h + length b,
                 (h @ map Row b @ [Grid [length h ..< length h + length b]])
                   [length h + row := Row ((b ! row)[col := Some player])])"
proof -
  from rb obtain rs where g: "get_grid h a = Some rs" and t: "those (map (get_row h) rs) = Some b"
    by (auto simp: read_board_Some)
  from t have len: "length b = length rs" by (simp add: those_map_Some)
  have c: "copy_rows h rs = Some ([length h ..< length h + length b], h @ map Row b)"
    using copy_rows_Some[OF t] len by simp
  have r: "get_row ((h @ map Row b) @ [Grid [length h ..< length h + length b]]) (length h + row)
             = Some (b ! row)"
    using row by (simp add: get_row_def nth_append)
  show ?thesis
    using g c r row col by (simp add: place_disc_heap_def Let_def)
qed

lemma place_disc_heap_frame:
  assumes rb: "read_board h a = Some b" and row: "row < length b" and col: "col < length (b ! row)"
    and res: "place_disc_heap h a row col player = Some (a', h')"
  shows "read_board h' a' = Some (b[row := (b ! row)[col := Some player]])"
    and "read_board h' a = Some b"
    and "\<forall>x < length h. h' ! x = h ! x"
proof -
  let ?refs = "[length h ..< length h + length b]"
  let ?new = "Row ((b ! row)[col := Some player])"
  from place_disc_heap_result[OF rb row col, of player] res
  have a': "a' = length h + length b"
    and h': "h' = (h @ map Row b @ [Grid ?refs])[length h + row := ?new]"
    by simp_all
  show old: "\<forall>x < length h. h' ! x = h ! x"
    by (simp add: h' nth_append)
  from rb obtain rs where g: "get_grid h a = Some rs" and t: "those (map (get_row h) rs) = Some b"
    by (auto simp: read_board_Some)
  have alt: "a < length h" using g by (simp add: get_grid_def split: if_splits)
  have rslt: "\<forall>i < length rs. rs ! i < length h"
    using t by (auto simp: those_map_Some get_row_def split: if_splits)
  have len_h': "length h' = length h + length b + 1" by (simp add: h')
  have "get_grid h' a = Some rs"
    using g alt old len_h' by (simp add: get_grid_def)
  moreover have "those (map (get_row h') rs) = Some b"
    using t rslt old len_h' by (auto simp: those_map_Some get_row_def)
  ultimately show "read_board h' a = Some b"
    by (simp add: read_board_Some)
  have "get_grid h' a' = Some ?refs"
    using row by (simp add: get_grid_def a' h' nth_append)
  moreover have "those (map (get_row h') ?refs) = Some (b[row := (b ! row)[col := Some player]])"
    using row by (auto simp: those_map_Some get_row_def h' nth_append nth_list_update)
  ultimately show "read_board h' a' = Some (b[row := (b ! row)[col := Some player]])"
    by (simp add: read_board_Some)
qed


lemma place_disc_cells:
  assumes "row < length b" "col < length (b ! row)"
  shows "place_disc b row col player = Some (b[row := (b ! row)[col := Some player]])"
    and "b[row := (b ! row)[col := Some player]] ! row ! col = Some player"
    and "length (b[row := (b ! row)[col := Some player]]) = length b"
    and "r < length b \<Longrightarrow>
           length (b[row := (b ! row)[col := Some player]] ! r) = length (b ! r)"
    and "r < length b \<Longrightarrow> (r, c) \<noteq> (row, col) \<Longrightarrow>
           b[row := (b ! row)[col := Some player]] ! r ! c = b ! r ! c"
  using assms by (auto simp: place_disc_def nth_list_update)

text \<open>
  C7. For a board stored on the heap and a cell inside it, \<^verbatim>\<open>place_disc\<close> returns a new
  board that holds the player at \<open>(row, col)\<close> and equals the input board at every other
  cell; the input board reads the same after the call as before, and no object that existed
  before the call has changed.
\<close>

theorem place_disc_copy_on_write:
  assumes "read_board h a = Some b" and "row < length b" and "col < length (b ! row)"
  shows "\<exists>a' h' b'. place_disc_heap h a row col player = Some (a', h')
           \<and> read_board h' a' = Some b'
           \<and> place_disc b row col player = Some b'
           \<and> b' ! row ! col = Some player
           \<and> length b' = length b
           \<and> (\<forall>r < length b. length (b' ! r) = length (b ! r)
                  \<and> (\<forall>c < length (b ! r). (r, c) \<noteq> (row, col) \<longrightarrow> b' ! r ! c = b ! r ! c))
           \<and> read_board h' a = Some b
           \<and> (\<forall>x < length h. h' ! x = h ! x)"
proof -
  let ?b' = "b[row := (b ! row)[col := Some player]]"
  from place_disc_heap_result[OF assms, of player]
  obtain a' h' where res: "place_disc_heap h a row col player = Some (a', h')"
    by blast
  note fr = place_disc_heap_frame[OF assms res]
  note cl = place_disc_cells[OF assms(2,3), where player = player]
  have "\<forall>r < length b. length (?b' ! r) = length (b ! r)
          \<and> (\<forall>c < length (b ! r). (r, c) \<noteq> (row, col) \<longrightarrow> ?b' ! r ! c = b ! r ! c)"
    using cl(4,5) by blast
  with res fr cl(1,2,3) show ?thesis by blast
qed

theorem place_disc_copy_on_write_witness:
  "read_board (heap_of empty_board) 10 = Some empty_board
   \<and> (\<exists>a' h' b'. place_disc_heap (heap_of empty_board) 10 9 3 ''BOT'' = Some (a', h')
           \<and> read_board h' a' = Some b'
           \<and> place_disc empty_board 9 3 ''BOT'' = Some b'
           \<and> b' ! 9 ! 3 = Some ''BOT''
           \<and> read_board h' 10 = Some empty_board)"
proof -
  have rb: "read_board (heap_of empty_board) 10 = Some empty_board" by code_simp
  have r: "9 < length empty_board" by code_simp
  have c: "3 < length (empty_board ! 9)" by code_simp
  from place_disc_copy_on_write[OF rb r c, of "''BOT''"] rb show ?thesis
    by blast
qed

section \<open>Static evaluation\<close>

text \<open>
  The four line directions of the source, \<^verbatim>\<open>directions = [(0, 1), (1, 0), (1, 1), (-1, 1)]\<close>
  (horizontal, vertical, diagonal down-right, diagonal up-right), as a type with the tuple
  of each; both \<^verbatim>\<open>evaluate_board\<close> and \<^verbatim>\<open>check_win\<close> iterate over this list.
\<close>

datatype direction = Horizontal | Vertical | DiagDownRight | DiagUpRight

fun delta :: "direction \<Rightarrow> int \<times> int" where
  "delta Horizontal = (0, 1)"
| "delta Vertical = (1, 0)"
| "delta DiagDownRight = (1, 1)"
| "delta DiagUpRight = (-1, 1)"

definition directions :: "direction list" where
  "directions = [Horizontal, Vertical, DiagDownRight, DiagUpRight]"

text \<open>\<^verbatim>\<open>board[r][c]\<close> at integer indices that the source has checked with \<^verbatim>\<open>in_bounds\<close>.\<close>

definition cell_at :: "board \<Rightarrow> int \<Rightarrow> int \<Rightarrow> cell" where
  "cell_at b row col = b ! nat row ! nat col"

text \<open>
  \<^verbatim>\<open>score_window\<close>. \<open>is_opponent\<close> is the test \<^verbatim>\<open>cell in opponents\<close>; the three counts are
  \<^verbatim>\<open>sum(1 for cell in window if ...)\<close> twice and \<^verbatim>\<open>window.count(None)\<close>. The scores are Python
  numbers (ints and floats that are multiples of one half, far below \<open>2^53\<close>), so every sum
  of them is exact and they are reals here.
\<close>

definition is_opponent :: "string list \<Rightarrow> cell \<Rightarrow> bool" where
  "is_opponent opponents cell = (case cell of None \<Rightarrow> False | Some p \<Rightarrow> p \<in> set opponents)"

definition score_window :: "cell list \<Rightarrow> string \<Rightarrow> string list \<Rightarrow> real" where
  "score_window window bot_id opponents =
     (let bot_count = length (filter (\<lambda>cell. cell = Some bot_id) window);
          opp_count = length (filter (is_opponent opponents) window);
          empty_count = count_list window None
      in if bot_count > 0 \<and> opp_count > 0 then 0
         else if bot_count = CONNECT_N then WIN_SCORE
         else if opp_count = CONNECT_N then - WIN_SCORE
         else (if bot_count = 3 \<and> empty_count = 1 then 50
               else if bot_count = 2 \<and> empty_count = 2 then 10
               else if bot_count = 1 \<and> empty_count = 3 then 2
               else 0)
            + (if opp_count = 3 \<and> empty_count = 1 then - 60
               else if opp_count = 2 \<and> empty_count = 2 then - 8
               else 0))"

text \<open>
  \<^verbatim>\<open>evaluate_board\<close>: the centre bonus, then the three nested loops over rows, columns and
  directions (\<open>scan_order\<close>), skipping a start whose fourth cell is out of bounds
  (\<open>window_fits\<close>) and adding the score of the window read at the others (\<open>window_at\<close>).
\<close>

definition window_at :: "board \<Rightarrow> nat \<Rightarrow> nat \<Rightarrow> direction \<Rightarrow> cell list" where
  "window_at b row col d =
     (case delta d of (dr, dc) \<Rightarrow>
        map (\<lambda>k. cell_at b (int row + int k * dr) (int col + int k * dc)) [0..<CONNECT_N])"

definition window_fits :: "nat \<Rightarrow> nat \<Rightarrow> direction \<Rightarrow> bool" where
  "window_fits row col d =
     (case delta d of (dr, dc) \<Rightarrow>
        in_bounds (int row + (int CONNECT_N - 1) * dr) (int col + (int CONNECT_N - 1) * dc))"

definition scan_order :: "(nat \<times> nat \<times> direction) list" where
  "scan_order = List.product [0..<ROWS] (List.product [0..<COLS] directions)"

definition evaluate_board :: "board \<Rightarrow> string \<Rightarrow> string list \<Rightarrow> real" where
  "evaluate_board b bot_id opponents =
     (let center_col = COLS div 2;
          center_weight = 2.5;
          center_count = length (filter (\<lambda>r. b ! r ! center_col = Some bot_id) [0..<ROWS]);
          score = 0 + real center_count * center_weight
      in foldl (\<lambda>score (row, col, d).
                  if \<not> window_fits row col d then score
                  else score + score_window (window_at b row col d) bot_id opponents)
               score scan_order)"


text \<open>
  The words of the specification: a window is a run of four consecutive cells of the grid
  along a direction; a window is contested when it holds a bot disc and an opponent disc;
  the table of scores, read from top to bottom.
\<close>

definition all_windows :: "(nat \<times> nat \<times> direction) set" where
  "all_windows =
     {(row, col, d). \<forall>k < CONNECT_N.
        in_bounds (int row + int k * fst (delta d)) (int col + int k * snd (delta d))}"

definition contested :: "cell list \<Rightarrow> string \<Rightarrow> string list \<Rightarrow> bool" where
  "contested window bot_id opponents =
     (Some bot_id \<in> set window \<and> (\<exists>p \<in> set opponents. Some p \<in> set window))"

definition bot_discs :: "cell list \<Rightarrow> string \<Rightarrow> nat" where
  "bot_discs window bot_id = count_list window (Some bot_id)"

definition opp_discs :: "cell list \<Rightarrow> string list \<Rightarrow> nat" where
  "opp_discs window opponents = (\<Sum>cell \<leftarrow> window. if cell \<in> Some ` set opponents then 1 else 0)"

definition empties_in :: "cell list \<Rightarrow> nat" where
  "empties_in window = count_list window None"

lemma length_filter_count: "length (filter (\<lambda>x. x = a) xs) = count_list xs a"
  by (induction xs) auto

lemma length_filter_opp: "length (filter (is_opponent opps) w) = opp_discs w opps"
  by (induction w) (auto simp: opp_discs_def is_opponent_def split: option.splits)

lemma bot_discs_pos: "0 < bot_discs w bot_id \<longleftrightarrow> Some bot_id \<in> set w"
  by (simp add: bot_discs_def count_list_0_iff zero_less_iff_neq_zero)

lemma opp_discs_pos: "0 < opp_discs w opps \<longleftrightarrow> (\<exists>p \<in> set opps. Some p \<in> set w)"
  by (induction w) (auto simp: opp_discs_def)

lemma score_window_counts:
  "score_window w bot_id opps =
     (if 0 < bot_discs w bot_id \<and> 0 < opp_discs w opps then 0
      else if bot_discs w bot_id = 4 then 10000
      else if opp_discs w opps = 4 then - 10000
      else (if bot_discs w bot_id = 3 \<and> empties_in w = 1 then 50
            else if bot_discs w bot_id = 2 \<and> empties_in w = 2 then 10
            else if bot_discs w bot_id = 1 \<and> empties_in w = 3 then 2
            else 0)
         + (if opp_discs w opps = 3 \<and> empties_in w = 1 then - 60
            else if opp_discs w opps = 2 \<and> empties_in w = 2 then - 8
            else 0))"
  by (simp add: score_window_def Let_def length_filter_count length_filter_opp
        bot_discs_def empties_in_def CONNECT_N_def WIN_SCORE_def)

lemma foldl_windows:
  "foldl (\<lambda>(score::real) (row, col, d). if \<not> fits row col d then score else score + g row col d) s0 xs
     = s0 + (\<Sum>(row, col, d) \<leftarrow> filter (\<lambda>(row, col, d). fits row col d) xs. g row col d)"
  by (induction xs arbitrary: s0) auto

lemma evaluate_board_sum_list:
  "evaluate_board b bot_id opps =
     real (length (filter (\<lambda>r. b ! r ! (COLS div 2) = Some bot_id) [0..<ROWS])) * 2.5
     + (\<Sum>(row, col, d) \<leftarrow> filter (\<lambda>(row, col, d). window_fits row col d) scan_order.
          score_window (window_at b row col d) bot_id opps)"
  by (simp add: evaluate_board_def Let_def foldl_windows)

lemma distinct_directions: "distinct directions"
  by (simp add: directions_def)

lemma set_directions: "set directions = UNIV"
proof -
  have "d \<in> set directions" for d by (cases d) (simp_all add: directions_def)
  then show ?thesis by auto
qed

lemma distinct_scan_order: "distinct scan_order"
  by (simp add: scan_order_def distinct_product distinct_directions)

lemma set_scan_order: "set scan_order = {(row, col, d). row < ROWS \<and> col < COLS}"
  by (auto simp: scan_order_def set_directions)

lemma all_windows_eq: "all_windows = set (filter (\<lambda>(row, col, d). window_fits row col d) scan_order)"
proof -
  have "(\<forall>k < CONNECT_N. in_bounds (int row + int k * fst (delta d)) (int col + int k * snd (delta d)))
        \<longleftrightarrow> row < ROWS \<and> col < COLS \<and> window_fits row col d" for row col d
  proof
    assume a: "\<forall>k < CONNECT_N. in_bounds (int row + int k * fst (delta d)) (int col + int k * snd (delta d))"
    from a[rule_format, of 0] a[rule_format, of 3]
    show "row < ROWS \<and> col < COLS \<and> window_fits row col d"
      by (cases d) (simp_all add: CONNECT_N_def in_bounds_def window_fits_def)
  next
    assume a: "row < ROWS \<and> col < COLS \<and> window_fits row col d"
    show "\<forall>k < CONNECT_N. in_bounds (int row + int k * fst (delta d)) (int col + int k * snd (delta d))"
      using a by (cases d) (auto simp: CONNECT_N_def in_bounds_def window_fits_def ROWS_def COLS_def)
  qed
  then show ?thesis by (auto simp: all_windows_def set_scan_order)
qed

lemma center_count_card:
  "length (filter P [0..<n]) = card {r. r < n \<and> P r}"
proof -
  have "card {r. r < n \<and> P r} = card (set (filter P [0..<n]))"
    by (rule arg_cong[where f = card]) auto
  also have "\<dots> = length (filter P [0..<n])"
    by (rule distinct_card) simp
  finally show ?thesis by simp
qed

lemma evaluate_board_sum_set:
  "evaluate_board b bot_id opps =
     (\<Sum>(row, col, d) \<in> all_windows. score_window (window_at b row col d) bot_id opps)
     + 2.5 * real (card {r. r < ROWS \<and> b ! r ! (COLS div 2) = Some bot_id})"
proof -
  let ?ws = "filter (\<lambda>(row, col, d). window_fits row col d) scan_order"
  have "distinct ?ws" by (simp add: distinct_scan_order)
  then have "(\<Sum>(row, col, d) \<leftarrow> ?ws. score_window (window_at b row col d) bot_id opps)
           = (\<Sum>(row, col, d) \<in> set ?ws. score_window (window_at b row col d) bot_id opps)"
    by (rule sum_list_distinct_conv_sum_set)
  then show ?thesis
    by (simp add: evaluate_board_sum_list all_windows_eq center_count_card)
qed

definition window_table_spec :: "cell list \<Rightarrow> string \<Rightarrow> string list \<Rightarrow> real" where
  "window_table_spec w bot_id opps =
     (if contested w bot_id opps then 0
      else if bot_discs w bot_id = 4 then 10000
      else if opp_discs w opps = 4 then - 10000
      else if bot_discs w bot_id = 3 \<and> empties_in w = 1 then 50
      else if bot_discs w bot_id = 2 \<and> empties_in w = 2 then 10
      else if bot_discs w bot_id = 1 \<and> empties_in w = 3 then 2
      else if opp_discs w opps = 3 \<and> empties_in w = 1 then - 60
      else if opp_discs w opps = 2 \<and> empties_in w = 2 then - 8
      else 0)"

text \<open>
  The words of the specification, written out without the code's helpers: the windows of
  the 10 by 10 grid are the runs of four consecutive cells along a line, named by their
  first cell and direction; \<open>window_cells\<close> lists the four cells of a window.
\<close>

definition grid_windows :: "(nat \<times> nat \<times> direction) set" where
  "grid_windows =
     {(row, col, d). case d of
         Horizontal \<Rightarrow> row < 10 \<and> col + 3 < 10
       | Vertical \<Rightarrow> row + 3 < 10 \<and> col < 10
       | DiagDownRight \<Rightarrow> row + 3 < 10 \<and> col + 3 < 10
       | DiagUpRight \<Rightarrow> 3 \<le> row \<and> row < 10 \<and> col + 3 < 10}"

definition window_cells :: "board \<Rightarrow> nat \<Rightarrow> nat \<Rightarrow> direction \<Rightarrow> cell list" where
  "window_cells b row col d =
     (case d of
        Horizontal \<Rightarrow> [b ! row ! col, b ! row ! (col + 1), b ! row ! (col + 2), b ! row ! (col + 3)]
      | Vertical \<Rightarrow> [b ! row ! col, b ! (row + 1) ! col, b ! (row + 2) ! col, b ! (row + 3) ! col]
      | DiagDownRight \<Rightarrow>
          [b ! row ! col, b ! (row + 1) ! (col + 1), b ! (row + 2) ! (col + 2), b ! (row + 3) ! (col + 3)]
      | DiagUpRight \<Rightarrow>
          [b ! row ! col, b ! (row - 1) ! (col + 1), b ! (row - 2) ! (col + 2), b ! (row - 3) ! (col + 3)])"

lemma upt_4: "[0..<4] = [0, 1, 2, 3::nat]"
  by (simp add: upt_rec)

lemma grid_windows_eq: "grid_windows = all_windows"
proof -
  have "(case d of
         Horizontal \<Rightarrow> row < 10 \<and> col + 3 < 10
       | Vertical \<Rightarrow> row + 3 < 10 \<and> col < 10
       | DiagDownRight \<Rightarrow> row + 3 < 10 \<and> col + 3 < 10
       | DiagUpRight \<Rightarrow> 3 \<le> row \<and> row < 10 \<and> col + 3 < 10)
     \<longleftrightarrow> row < ROWS \<and> col < COLS \<and> window_fits row col d" for row col d
    by (cases d) (auto simp: window_fits_def in_bounds_def ROWS_def COLS_def CONNECT_N_def)
  then show ?thesis
    by (auto simp: grid_windows_def all_windows_eq set_scan_order)
qed

lemma window_at_cells:
  assumes "(row, col, d) \<in> grid_windows"
  shows "window_at b row col d = window_cells b row col d"
proof (cases d)
  case Horizontal
  then show ?thesis
    by (simp add: window_at_def window_cells_def cell_at_def CONNECT_N_def upt_4 nat_add_distrib)
next
  case Vertical
  then show ?thesis
    by (simp add: window_at_def window_cells_def cell_at_def CONNECT_N_def upt_4 nat_add_distrib)
next
  case DiagDownRight
  then show ?thesis
    by (simp add: window_at_def window_cells_def cell_at_def CONNECT_N_def upt_4 nat_add_distrib)
next
  case DiagUpRight
  with assms have r: "3 \<le> row" by (simp add: grid_windows_def)
  then have "nat (int row - 1) = row - 1" "nat (int row - 2) = row - 2" "nat (int row - 3) = row - 3"
    by simp_all
  with DiagUpRight show ?thesis
    by (simp add: window_at_def window_cells_def cell_at_def CONNECT_N_def upt_4 nat_add_distrib)
qed

lemma evaluate_board_grid:
  "evaluate_board b bot_id opps =
     (\<Sum>(row, col, d) \<in> grid_windows. score_window (window_cells b row col d) bot_id opps)
     + 2.5 * real (card {r. r < 10 \<and> b ! r ! 5 = Some bot_id})"
proof -
  have "(\<Sum>(row, col, d) \<in> grid_windows. score_window (window_at b row col d) bot_id opps)
      = (\<Sum>(row, col, d) \<in> grid_windows. score_window (window_cells b row col d) bot_id opps)"
    by (rule sum.cong) (auto simp: window_at_cells)
  moreover have "{r. r < ROWS \<and> b ! r ! (COLS div 2) = Some bot_id} = {r. r < 10 \<and> b ! r ! 5 = Some bot_id}"
    by (simp add: ROWS_def COLS_def)
  ultimately show ?thesis
    using evaluate_board_sum_set[of b bot_id opps] by (simp add: grid_windows_eq)
qed

text \<open>
  C4. The score of a window is the specification's table, and \<^verbatim>\<open>evaluate_board\<close> is the sum,
  over every run of four consecutive cells of the grid along the four directions, of the
  table's score of the four cells of that run, plus 2.5 for each bot disc in the middle
  column (column 5).
\<close>

theorem evaluate_board_windows:
  "score_window w bot_id opps = window_table_spec w bot_id opps
   \<and> evaluate_board b bot_id opps =
       (\<Sum>(row, col, d) \<in> grid_windows. window_table_spec (window_cells b row col d) bot_id opps)
       + 2.5 * real (card {r. r < 10 \<and> b ! r ! 5 = Some bot_id})"
proof
  have c: "contested w bot_id opps \<longleftrightarrow> 0 < bot_discs w bot_id \<and> 0 < opp_discs w opps" for w
    by (simp add: contested_def bot_discs_pos opp_discs_pos)
  have t: "score_window w bot_id opps = window_table_spec w bot_id opps" for w
    unfolding window_table_spec_def c score_window_counts[of w bot_id opps] by auto
  show "score_window w bot_id opps = window_table_spec w bot_id opps" by (rule t)
  show "evaluate_board b bot_id opps =
       (\<Sum>(row, col, d) \<in> grid_windows. window_table_spec (window_cells b row col d) bot_id opps)
       + 2.5 * real (card {r. r < 10 \<and> b ! r ! 5 = Some bot_id})"
    unfolding evaluate_board_grid t ..
qed

lemma opp_discs_plus_empties:
  "Some bot_id \<notin> set w \<Longrightarrow> \<forall>x \<in> set w. x = None \<or> (\<exists>p \<in> set opps. x = Some p)
     \<Longrightarrow> opp_discs w opps + empties_in w = length w"
  by (induction w) (auto simp: opp_discs_def empties_in_def)

text \<open>
  C10. Opponent discs are counted together whatever their owner: a window without a bot disc
  is scored by the number of opponent discs and empties alone, so four discs of any
  opponents score \<open>-10000\<close> and three discs of any opponents with one empty cell score
  \<open>-60\<close>, whatever mix of opponents owns them.
\<close>

theorem score_window_many_opponents:
  "Some bot_id \<notin> set w \<longrightarrow>
     score_window w bot_id opps =
       (if opp_discs w opps = 4 then - 10000
        else if opp_discs w opps = 3 \<and> empties_in w = 1 then - 60
        else if opp_discs w opps = 2 \<and> empties_in w = 2 then - 8
        else 0)
     \<and> (length w = 4 \<and> (\<forall>x \<in> set w. \<exists>p \<in> set opps. x = Some p)
          \<longrightarrow> score_window w bot_id opps = - 10000)
     \<and> (length w = 4 \<and> empties_in w = 1 \<and> (\<forall>x \<in> set w. x = None \<or> (\<exists>p \<in> set opps. x = Some p))
          \<longrightarrow> score_window w bot_id opps = - 60)"
proof (intro impI conjI)
  assume nb: "Some bot_id \<notin> set w"
  then have b0: "bot_discs w bot_id = 0"
    by (simp add: bot_discs_def count_list_0_iff)
  show g: "score_window w bot_id opps =
           (if opp_discs w opps = 4 then - 10000
            else if opp_discs w opps = 3 \<and> empties_in w = 1 then - 60
            else if opp_discs w opps = 2 \<and> empties_in w = 2 then - 8
            else 0)"
    by (simp add: score_window_counts b0)
  {
    assume "length w = 4 \<and> (\<forall>x \<in> set w. \<exists>p \<in> set opps. x = Some p)"
    then have l: "length w = 4" and a: "\<forall>x \<in> set w. \<exists>p \<in> set opps. x = Some p"
      by blast+
    from a have "empties_in w = 0"
      by (auto simp: empties_in_def count_list_0_iff)
    moreover from a have "\<forall>x \<in> set w. x = None \<or> (\<exists>p \<in> set opps. x = Some p)" by blast
    ultimately have "opp_discs w opps = 4"
      using opp_discs_plus_empties[OF nb, of opps] l by simp
    then show "score_window w bot_id opps = - 10000" by (simp add: g)
  }
  {
    assume "length w = 4 \<and> empties_in w = 1
            \<and> (\<forall>x \<in> set w. x = None \<or> (\<exists>p \<in> set opps. x = Some p))"
    then have l: "length w = 4" and e: "empties_in w = 1"
      and a: "\<forall>x \<in> set w. x = None \<or> (\<exists>p \<in> set opps. x = Some p)"
      by blast+
    have "opp_discs w opps = 3"
      using opp_discs_plus_empties[OF nb a] l e by simp
    then show "score_window w bot_id opps = - 60" by (simp add: g e)
  }
qed

theorem score_window_many_opponents_witness:
  "score_window [Some ''P1'', Some ''P2'', Some ''P3'', Some ''P1''] ''BOT'' [''P1'', ''P2'', ''P3''] = - 10000
   \<and> score_window [Some ''P1'', None, Some ''P2'', Some ''P3''] ''BOT'' [''P1'', ''P2'', ''P3''] = - 60"
proof -
  define w1 where "w1 = [Some ''P1'', Some ''P2'', Some ''P3'', Some ''P1'']"
  define w2 where "w2 = [Some ''P1'', None, Some ''P2'', Some ''P3'']"
  define opps where "opps = [''P1'', ''P2'', ''P3'']"
  have 1: "Some ''BOT'' \<notin> set w1" unfolding w1_def by simp
  have 2: "length w1 = 4 \<and> (\<forall>x \<in> set w1. \<exists>p \<in> set opps. x = Some p)"
    unfolding w1_def opps_def by simp
  have 3: "Some ''BOT'' \<notin> set w2" unfolding w2_def by simp
  have 4: "length w2 = 4 \<and> empties_in w2 = 1
           \<and> (\<forall>x \<in> set w2. x = None \<or> (\<exists>p \<in> set opps. x = Some p))"
    unfolding w2_def opps_def empties_in_def by simp
  from score_window_many_opponents[of "''BOT''" w1 opps] 1 2
    score_window_many_opponents[of "''BOT''" w2 opps] 3 4
  have "score_window w1 ''BOT'' opps = - 10000 \<and> score_window w2 ''BOT'' opps = - 60"
    by blast
  then show ?thesis unfolding w1_def w2_def opps_def .
qed

theorem evaluate_board_windows_witness:
  "score_window [Some ''BOT'', Some ''BOT'', None, Some ''BOT''] ''BOT'' [''P1'', ''P2''] = 50
   \<and> window_table_spec [Some ''BOT'', Some ''BOT'', None, Some ''BOT''] ''BOT'' [''P1'', ''P2''] = 50
   \<and> evaluate_board (board_of [(9, 5, ''BOT'')]) ''BOT'' [''P1'', ''P2''] = 16.5
   \<and> (\<Sum>(row, col, d) \<in> grid_windows.
           window_table_spec (window_cells (board_of [(9, 5, ''BOT'')]) row col d) ''BOT'' [''P1'', ''P2''])
       + 2.5 * real (card {r. r < 10 \<and> board_of [(9, 5, ''BOT'')] ! r ! 5 = Some ''BOT''}) = 16.5
   \<and> evaluate_board (board_of [(9, 0, ''P1''), (9, 1, ''P1''), (9, 2, ''P1'')]) ''BOT'' [''P1'', ''P2''] = - 68
   \<and> (\<Sum>(row, col, d) \<in> grid_windows.
           window_table_spec (window_cells (board_of [(9, 0, ''P1''), (9, 1, ''P1''), (9, 2, ''P1'')]) row col d)
             ''BOT'' [''P1'', ''P2''])
       + 2.5 * real (card {r. r < 10 \<and> board_of [(9, 0, ''P1''), (9, 1, ''P1''), (9, 2, ''P1'')] ! r ! 5 = Some ''BOT''})
       = - 68"
proof -
  define b1 where "b1 = board_of [(9, 5, ''BOT'')]"
  define b2 where "b2 = board_of [(9, 0, ''P1''), (9, 1, ''P1''), (9, 2, ''P1'')]"
  define w where "w = [Some ''BOT'', Some ''BOT'', None, Some ''BOT'']"
  define opps where "opps = [''P1'', ''P2'']"
  have s: "score_window w ''BOT'' opps = 50" unfolding w_def opps_def by code_simp
  have e1: "evaluate_board b1 ''BOT'' opps = 16.5" unfolding b1_def opps_def by code_simp
  have e2: "evaluate_board b2 ''BOT'' opps = - 68" unfolding b2_def opps_def by code_simp
  note t1 = evaluate_board_windows[of w "''BOT''" opps b1]
  note t2 = evaluate_board_windows[of w "''BOT''" opps b2]
  from s t1 have a: "window_table_spec w ''BOT'' opps = 50" by simp
  from e1 t1 have b: "(\<Sum>(row, col, d) \<in> grid_windows.
           window_table_spec (window_cells b1 row col d) ''BOT'' opps)
       + 2.5 * real (card {r. r < 10 \<and> b1 ! r ! 5 = Some ''BOT''}) = 16.5" by simp
  from e2 t2 have c: "(\<Sum>(row, col, d) \<in> grid_windows.
           window_table_spec (window_cells b2 row col d) ''BOT'' opps)
       + 2.5 * real (card {r. r < 10 \<and> b2 ! r ! 5 = Some ''BOT''}) = - 68" by simp
  from s a e1 b e2 c show ?thesis unfolding b1_def b2_def w_def opps_def by blast
qed

section \<open>Swapping the two sides\<close>

definition two_player_board :: "board \<Rightarrow> string \<Rightarrow> string \<Rightarrow> bool" where
  "two_player_board b A B =
     (wf_board b \<and> A \<noteq> B \<and> list_all (list_all (\<lambda>x. x = None \<or> x = Some A \<or> x = Some B)) b)"

definition discs_in :: "cell list \<Rightarrow> nat" where
  "discs_in w = length (filter (\<lambda>x. x \<noteq> None) w)"

definition one_owner :: "cell list \<Rightarrow> bool" where
  "one_owner w = (length (remdups (filter (\<lambda>x. x \<noteq> None) w)) \<le> 1)"

definition swap_defect :: "cell list \<Rightarrow> real" where
  "swap_defect w =
     (if \<not> one_owner w then 0
      else if discs_in w = 3 then - 10
      else if discs_in w = 2 \<or> discs_in w = 1 then 2
      else 0)"

lemma two_counts:
  assumes "set w \<subseteq> {None, Some A, Some B}" "A \<noteq> B"
  shows "bot_discs w A + bot_discs w B = discs_in w"
    and "discs_in w + empties_in w = length w"
    and "opp_discs w [B] = bot_discs w B"
    and "opp_discs w [A] = bot_discs w A"
    and "one_owner w \<longleftrightarrow> bot_discs w A = 0 \<or> bot_discs w B = 0"
proof -
  show "bot_discs w A + bot_discs w B = discs_in w"
    using assms by (induction w) (auto simp: bot_discs_def discs_in_def)
  show "discs_in w + empties_in w = length w"
    by (induction w) (auto simp: discs_in_def empties_in_def)
  show "opp_discs w [B] = bot_discs w B"
    by (induction w) (auto simp: bot_discs_def opp_discs_def)
  show "opp_discs w [A] = bot_discs w A"
    by (induction w) (auto simp: bot_discs_def opp_discs_def)
  have "set (filter (\<lambda>x. x \<noteq> None) w) =
          (if Some A \<in> set w then {Some A} else {}) \<union> (if Some B \<in> set w then {Some B} else {})"
    using assms by auto
  then have "card (set (filter (\<lambda>x. x \<noteq> None) w)) \<le> 1 \<longleftrightarrow> Some A \<notin> set w \<or> Some B \<notin> set w"
    using assms(2) by (auto simp: card_insert_if)
  then show "one_owner w \<longleftrightarrow> bot_discs w A = 0 \<or> bot_discs w B = 0"
    by (simp add: one_owner_def length_remdups_card_conv bot_discs_def count_list_0_iff)
qed

lemma window_swap:
  assumes "set w \<subseteq> {None, Some A, Some B}" "A \<noteq> B" "length w = 4"
  shows "score_window w A [B] + score_window w B [A] = swap_defect w"
proof -
  note c = two_counts[OF assms(1,2)]
  from c(1) c(2) assms(3) have s: "bot_discs w A + bot_discs w B + empties_in w = 4" by simp
  show ?thesis
    unfolding score_window_counts swap_defect_def c(3) c(4) c(5) c(1)[symmetric]
    using s by auto
qed

lemma fits_in_bounds:
  assumes "(row, col, d) \<in> all_windows" "k < CONNECT_N"
  shows "in_bounds (int row + int k * fst (delta d)) (int col + int k * snd (delta d))"
  using assms by (auto simp: all_windows_def)

lemma two_player_cell:
  assumes "two_player_board b A B" "in_bounds r c"
  shows "cell_at b r c \<in> {None, Some A, Some B}"
proof -
  from assms(2) have r: "nat r < 10" and c: "nat c < 10"
    by (auto simp: in_bounds_def ROWS_def COLS_def)
  from assms(1) have len: "length b = 10" and rows: "\<forall>row \<in> set b. length row = 10"
    and cells: "\<forall>row \<in> set b. \<forall>x \<in> set row. x = None \<or> x = Some A \<or> x = Some B"
    by (auto simp: two_player_board_def wf_board_def list_all_iff ROWS_def COLS_def)
  from r len have m: "b ! nat r \<in> set b" by simp
  with rows c have "b ! nat r ! nat c \<in> set (b ! nat r)" by simp
  with cells m show ?thesis by (auto simp: cell_at_def)
qed

lemma two_player_window:
  assumes "two_player_board b A B" "(row, col, d) \<in> all_windows"
  shows "set (window_at b row col d) \<subseteq> {None, Some A, Some B}" and "length (window_at b row col d) = 4"
proof -
  show "length (window_at b row col d) = 4"
    by (simp add: window_at_def CONNECT_N_def split: prod.splits)
  have ok: "cell_at b (int row + int k * fst (delta d)) (int col + int k * snd (delta d))
          \<in> {None, Some A, Some B}" if "k < CONNECT_N" for k
    using two_player_cell[OF assms(1) fits_in_bounds[OF assms(2) that]] .
  show "set (window_at b row col d) \<subseteq> {None, Some A, Some B}"
  proof
    fix x assume "x \<in> set (window_at b row col d)"
    then obtain k where k: "k < CONNECT_N"
      and x: "x = cell_at b (int row + int k * fst (delta d)) (int col + int k * snd (delta d))"
      by (auto simp: window_at_def case_prod_beta)
    from ok[OF k] x show "x \<in> {None, Some A, Some B}" by simp
  qed
qed

lemma two_player_center:
  assumes "two_player_board b A B"
  shows "card {r. r < ROWS \<and> b ! r ! (COLS div 2) = Some A}
         + card {r. r < ROWS \<and> b ! r ! (COLS div 2) = Some B}
         = card {r. r < ROWS \<and> b ! r ! (COLS div 2) \<noteq> None}"
proof -
  let ?SA = "{r. r < ROWS \<and> b ! r ! (COLS div 2) = Some A}"
  let ?SB = "{r. r < ROWS \<and> b ! r ! (COLS div 2) = Some B}"
  have cell: "b ! r ! (COLS div 2) \<in> {None, Some A, Some B}" if "r < ROWS" for r
    using two_player_cell[OF assms, of "int r" "int (COLS div 2)"] that
    by (simp add: in_bounds_def cell_at_def COLS_def)
  from assms have ne: "A \<noteq> B" by (simp add: two_player_board_def)
  have fin: "finite ?SA" "finite ?SB" by simp_all
  have dis: "?SA \<inter> ?SB = {}" using ne by auto
  have un: "?SA \<union> ?SB = {r. r < ROWS \<and> b ! r ! (COLS div 2) \<noteq> None}"
  proof (intro set_eqI iffI)
    fix r assume "r \<in> ?SA \<union> ?SB"
    then show "r \<in> {r. r < ROWS \<and> b ! r ! (COLS div 2) \<noteq> None}" by auto
  next
    fix r assume "r \<in> {r. r < ROWS \<and> b ! r ! (COLS div 2) \<noteq> None}"
    then have "r < ROWS" "b ! r ! (COLS div 2) \<noteq> None" by simp_all
    with cell[of r] show "r \<in> ?SA \<union> ?SB" by auto
  qed
  from card_Un_disjoint[OF fin dis] un show ?thesis by simp
qed

text \<open>
  C5 (as amended). On a board whose discs belong to two players \<open>A\<close> and \<open>B\<close>, the two
  evaluations are not negations of each other: their sum is 2.5 for every disc in the
  middle column plus, for every window that holds the discs of one player only, \<open>-10\<close> when
  it holds three discs and \<open>+2\<close> when it holds one or two (nothing for a contested, a full
  or an empty window).
\<close>

theorem evaluate_board_swap:
  assumes "two_player_board b A B"
  shows "evaluate_board b A [B] + evaluate_board b B [A] =
           (\<Sum>(row, col, d) \<in> all_windows. swap_defect (window_at b row col d))
           + 2.5 * real (card {r. r < ROWS \<and> b ! r ! (COLS div 2) \<noteq> None})"
proof -
  from assms have ne: "A \<noteq> B" by (simp add: two_player_board_def)
  have w: "score_window (window_at b row col d) A [B] + score_window (window_at b row col d) B [A]
             = swap_defect (window_at b row col d)"
    if "(row, col, d) \<in> all_windows" for row col d
    using window_swap[OF two_player_window(1)[OF assms that] ne two_player_window(2)[OF assms that]] .
  have "(\<Sum>(row, col, d) \<in> all_windows. score_window (window_at b row col d) A [B])
        + (\<Sum>(row, col, d) \<in> all_windows. score_window (window_at b row col d) B [A])
        = (\<Sum>(row, col, d) \<in> all_windows.
             score_window (window_at b row col d) A [B] + score_window (window_at b row col d) B [A])"
    by (simp add: sum.distrib case_prod_unfold)
  also have "\<dots> = (\<Sum>(row, col, d) \<in> all_windows. swap_defect (window_at b row col d))"
    by (rule sum.cong) (auto simp: w)
  finally have s: "(\<Sum>(row, col, d) \<in> all_windows. score_window (window_at b row col d) A [B])
        + (\<Sum>(row, col, d) \<in> all_windows. score_window (window_at b row col d) B [A])
        = (\<Sum>(row, col, d) \<in> all_windows. swap_defect (window_at b row col d))" .
  have c: "real (card {r. r < ROWS \<and> b ! r ! (COLS div 2) = Some A})
         + real (card {r. r < ROWS \<and> b ! r ! (COLS div 2) = Some B})
         = real (card {r. r < ROWS \<and> b ! r ! (COLS div 2) \<noteq> None})"
    using two_player_center[OF assms] by (simp flip: of_nat_add)
  show ?thesis
    unfolding evaluate_board_sum_set s[symmetric] c[symmetric] by (simp add: algebra_simps)
qed

theorem evaluate_board_swap_witness:
  "two_player_board (board_of [(9, 0, ''A''), (9, 9, ''B'')]) ''A'' ''B''
   \<and> evaluate_board (board_of [(9, 0, ''A''), (9, 9, ''B'')]) ''A'' [''B'']
       + evaluate_board (board_of [(9, 0, ''A''), (9, 9, ''B'')]) ''B'' [''A''] =
       (\<Sum>(row, col, d) \<in> all_windows. swap_defect (window_at (board_of [(9, 0, ''A''), (9, 9, ''B'')]) row col d))
       + 2.5 * real (card {r. r < ROWS \<and> board_of [(9, 0, ''A''), (9, 9, ''B'')] ! r ! (COLS div 2) \<noteq> None})"
proof -
  have h: "two_player_board (board_of [(9, 0, ''A''), (9, 9, ''B'')]) ''A'' ''B''"
    by code_simp
  from evaluate_board_swap[OF h] h show ?thesis by (rule_tac conjI)
qed

text \<open>
  The claim as stated fails with one disc of each player in the two bottom corners: both
  evaluations are \<open>+6\<close>.
\<close>

theorem evaluate_board_swap_counterexample:
  "two_player_board (board_of [(9, 0, ''A''), (9, 9, ''B'')]) ''A'' ''B''
   \<and> evaluate_board (board_of [(9, 0, ''A''), (9, 9, ''B'')]) ''A'' [''B''] = 6
   \<and> evaluate_board (board_of [(9, 0, ''A''), (9, 9, ''B'')]) ''B'' [''A''] = 6
   \<and> (6::real) \<noteq> - 6"
proof -
  have 1: "two_player_board (board_of [(9, 0, ''A''), (9, 9, ''B'')]) ''A'' ''B''"
    by code_simp
  have 2: "evaluate_board (board_of [(9, 0, ''A''), (9, 9, ''B'')]) ''A'' [''B''] = 6"
    by code_simp
  have 3: "evaluate_board (board_of [(9, 0, ''A''), (9, 9, ''B'')]) ''B'' [''A''] = 6"
    by code_simp
  from 1 2 3 show ?thesis by simp
qed

section \<open>Win detection\<close>

text \<open>
  The two \<^verbatim>\<open>while\<close> loops of \<^verbatim>\<open>check_win\<close>: from \<open>(r, c)\<close>, step along the direction (forward,
  \<^verbatim>\<open>r += dr; c += dc\<close>) or against it (backward, \<^verbatim>\<open>r -= dr; c -= dc\<close>) while the cell is in bounds
  and holds the player, counting the cells passed.
\<close>

function count_run :: "board \<Rightarrow> string \<Rightarrow> direction \<Rightarrow> bool \<Rightarrow> int \<Rightarrow> int \<Rightarrow> nat \<Rightarrow> nat" where
  "count_run b player d forward r c count =
     (if in_bounds r c \<and> cell_at b r c = Some player
      then (if forward
            then count_run b player d forward (r + fst (delta d)) (c + snd (delta d)) (count + 1)
            else count_run b player d forward (r - fst (delta d)) (c - snd (delta d)) (count + 1))
      else count)"
  by pat_completeness auto
termination
  by (relation "measure (\<lambda>(b, player, d, forward, r, c, count).
         case d of
           Vertical \<Rightarrow> (if forward then nat (10 - r) else nat (r + 1))
         | _ \<Rightarrow> (if forward then nat (10 - c) else nat (c + 1)))")
     (auto simp: in_bounds_def ROWS_def COLS_def split: direction.splits)

declare count_run.simps [simp del]

definition line_count :: "board \<Rightarrow> string \<Rightarrow> int \<Rightarrow> int \<Rightarrow> direction \<Rightarrow> nat" where
  "line_count b player row col d =
     (let count = 1;
          count = count_run b player d True (row + fst (delta d)) (col + snd (delta d)) count;
          count = count_run b player d False (row - fst (delta d)) (col - snd (delta d)) count
      in count)"

definition check_win :: "board \<Rightarrow> int \<Rightarrow> int \<Rightarrow> int \<Rightarrow> bool" where
  "check_win b row col connect_n =
     (case cell_at b row col of
        None \<Rightarrow> False
      | Some player \<Rightarrow> list_ex (\<lambda>d. connect_n \<le> int (line_count b player row col d)) directions)"










section \<open>Turn fatigue (DiceTurn.py)\<close>

text \<open>The exceptions the source raises.\<close>

datatype error = ValueError | RuntimeError | IndexError | AssertionError

text \<open>
  \<^verbatim>\<open>TurnState\<close> is mutated in place by \<^verbatim>\<open>roll_next_turn\<close>; here the function takes the state and
  returns the new one with the dictionary it reports. \<^verbatim>\<open>rnd.choice(pool)\<close> returns
  \<^verbatim>\<open>pool[k]\<close> for an index \<open>k\<close> below the length of the pool that the generator draws; the
  draw is an argument of the model, reduced modulo the length, so that every outcome of
  the choice is the result for some draw.
\<close>

record TurnState =
  last_player :: "string option"
  consecutive_count :: int
  skip_next :: "string option"

record RollResult =
  r_player :: string
  r_skip_next :: "string option"
  r_forced_skip :: bool
  r_next_roll_pool :: "string list"

definition initial_state :: TurnState where
  "initial_state = \<lparr>last_player = None, consecutive_count = 0, skip_next = None\<rparr>"

text \<open>Lines 34 to 37: the players without the skipped one, or all of them if none is left.\<close>

definition eligible_pool :: "string list \<Rightarrow> TurnState \<Rightarrow> string list" where
  "eligible_pool players state =
     (let pool = filter (\<lambda>p. Some p \<noteq> skip_next state) players
      in if pool = [] then players else pool)"

text \<open>Python's truth value of an \<^verbatim>\<open>Optional[str]\<close>: \<^verbatim>\<open>None\<close> and the empty string are false.\<close>

definition truthy :: "string option \<Rightarrow> bool" where
  "truthy x = (case x of None \<Rightarrow> False | Some s \<Rightarrow> s \<noteq> [])"

definition roll_next_turn :: "string list \<Rightarrow> TurnState \<Rightarrow> nat \<Rightarrow> error + (RollResult \<times> TurnState)" where
  "roll_next_turn players state draw =
     (if players = [] then Inl ValueError
      else
        let pool = eligible_pool players state;
            chosen = pool ! (draw mod length pool);
            state = (if skip_next state \<noteq> None then state\<lparr>skip_next := None\<rparr> else state);
            state = (if Some chosen = last_player state
                     then state\<lparr>consecutive_count := consecutive_count state + 1\<rparr>
                     else state\<lparr>consecutive_count := 1\<rparr>);
            state = state\<lparr>last_player := Some chosen\<rparr>;
            forced_skip = (2 \<le> consecutive_count state);
            state = (if forced_skip then state\<lparr>skip_next := Some chosen, consecutive_count := 0\<rparr>
                     else state);
            next_pool = (if truthy (skip_next state)
                         then filter (\<lambda>p. Some p \<noteq> skip_next state) players
                         else players)
        in Inr (\<lparr>r_player = chosen, r_skip_next = skip_next state,
                 r_forced_skip = forced_skip, r_next_roll_pool = next_pool\<rparr>, state))"

text \<open>
  The turn states a session can be in: the initial state, and every state a roll returns
  from one of them, whatever the player list and the draw of that roll.
\<close>

fun run_rolls :: "(string list \<times> nat) list \<Rightarrow> TurnState \<Rightarrow> TurnState option" where
  "run_rolls [] state = Some state"
| "run_rolls ((players, draw) # rest) state =
     (case roll_next_turn players state draw of
        Inl _ \<Rightarrow> None
      | Inr (_, state') \<Rightarrow> run_rolls rest state')"

definition reachable :: "TurnState \<Rightarrow> bool" where
  "reachable state = (\<exists>rolls. run_rolls rolls initial_state = Some state)"

lemma eligible_pool_props:
  assumes "players \<noteq> []"
  shows "eligible_pool players state \<noteq> []" and "set (eligible_pool players state) \<subseteq> set players"
  using assms by (auto simp: eligible_pool_def Let_def)

lemma roll_result:
  assumes "players \<noteq> []"
  shows "\<exists>r s'. roll_next_turn players state draw = Inr (r, s')
           \<and> r_player r = eligible_pool players state ! (draw mod length (eligible_pool players state))
           \<and> r_player r \<in> set (eligible_pool players state)
           \<and> last_player s' = Some (r_player r)
           \<and> r_skip_next r = skip_next s'
           \<and> (let n = (if Some (r_player r) = last_player state then consecutive_count state + 1 else 1)
              in r_forced_skip r = (2 \<le> n)
               \<and> skip_next s' = (if 2 \<le> n then Some (r_player r) else None)
               \<and> consecutive_count s' = (if 2 \<le> n then 0 else n))"
proof -
  have "draw mod length (eligible_pool players state) < length (eligible_pool players state)"
    using eligible_pool_props(1)[OF assms] by simp
  then have "eligible_pool players state ! (draw mod length (eligible_pool players state))
               \<in> set (eligible_pool players state)"
    by (rule nth_mem)
  then show ?thesis
    using assms by (simp add: roll_next_turn_def Let_def)
qed

text \<open>
  C9. \<^verbatim>\<open>roll_next_turn\<close> raises (ValueError) exactly when the player list is empty; for a
  non-empty list and any state and draw it returns, the pool it chooses from is not empty
  (it is the whole list when the skip rule leaves nobody), and the player returned is a
  member of the supplied list.
\<close>

theorem roll_next_turn_total:
  "(isl (roll_next_turn players state draw) \<longleftrightarrow> players = [])
   \<and> (players = [] \<longrightarrow> roll_next_turn players state draw = Inl ValueError)
   \<and> (players \<noteq> [] \<longrightarrow>
        (\<exists>r state'. roll_next_turn players state draw = Inr (r, state')
            \<and> r_player r \<in> set (eligible_pool players state)
            \<and> r_player r \<in> set players)
        \<and> eligible_pool players state \<noteq> []
        \<and> (filter (\<lambda>p. Some p \<noteq> skip_next state) players = []
              \<longrightarrow> eligible_pool players state = players))"
proof (cases "players = []")
  case True
  then show ?thesis by (simp add: roll_next_turn_def)
next
  case False
  from roll_result[OF False, of state draw]
  obtain r s' where r: "roll_next_turn players state draw = Inr (r, s')"
    and m: "r_player r \<in> set (eligible_pool players state)"
    by blast
  from m eligible_pool_props(2)[OF False, of state] have "r_player r \<in> set players" by blast
  with r m False eligible_pool_props(1)[OF False, of state] show ?thesis
    by (auto simp: eligible_pool_def)
qed


theorem roll_next_turn_total_witness:
  "[''A''] \<noteq> []
   \<and> filter (\<lambda>p. Some p \<noteq> skip_next \<lparr>last_player = Some ''A'', consecutive_count = 0, skip_next = Some ''A''\<rparr>) [''A''] = []
   \<and> eligible_pool [''A''] \<lparr>last_player = Some ''A'', consecutive_count = 0, skip_next = Some ''A''\<rparr> = [''A'']
   \<and> \<not> isl (roll_next_turn [''A''] \<lparr>last_player = Some ''A'', consecutive_count = 0, skip_next = Some ''A''\<rparr> 7)
   \<and> (\<exists>r state'. roll_next_turn [''A''] \<lparr>last_player = Some ''A'', consecutive_count = 0, skip_next = Some ''A''\<rparr> 7
                 = Inr (r, state') \<and> r_player r \<in> set [''A''])
   \<and> roll_next_turn [] initial_state 7 = Inl ValueError"
proof -
  define s where "s = \<lparr>last_player = Some ''A'', consecutive_count = 0, skip_next = Some ''A''\<rparr>"
  define ps where "ps = [''A'']"
  have ne: "ps \<noteq> []" unfolding ps_def by simp
  have f: "filter (\<lambda>p. Some p \<noteq> skip_next s) ps = []" unfolding ps_def s_def by simp
  have e: "([]::string list) = []" by simp
  from roll_next_turn_total[of ps s 7] ne f roll_next_turn_total[of "[]" initial_state 7] e
  have "ps \<noteq> [] \<and> filter (\<lambda>p. Some p \<noteq> skip_next s) ps = []
        \<and> eligible_pool ps s = ps
        \<and> \<not> isl (roll_next_turn ps s 7)
        \<and> (\<exists>r state'. roll_next_turn ps s 7 = Inr (r, state') \<and> r_player r \<in> set ps)
        \<and> roll_next_turn [] initial_state 7 = Inl ValueError"
    by blast
  then show ?thesis unfolding s_def ps_def .
qed

lemma roll_count_nonneg:
  assumes "roll_next_turn players state draw = Inr (r, state')" "0 \<le> consecutive_count state"
  shows "0 \<le> consecutive_count state'"
proof -
  from assms(1) have ne: "players \<noteq> []" by (auto simp: roll_next_turn_def split: if_splits)
  from roll_result[OF ne, of state draw] assms show ?thesis
    by (auto simp: Let_def split: if_splits)
qed

lemma run_rolls_count_nonneg:
  "run_rolls rolls state = Some state' \<Longrightarrow> 0 \<le> consecutive_count state
     \<Longrightarrow> 0 \<le> consecutive_count state'"
proof (induction rolls arbitrary: state)
  case Nil
  then show ?case by simp
next
  case (Cons x rolls)
  obtain players draw where x: "x = (players, draw)" by (cases x)
  from Cons.prems(1) x obtain r s1 where r: "roll_next_turn players state draw = Inr (r, s1)"
    and rest: "run_rolls rolls s1 = Some state'"
    by (auto split: sum.splits)
  from roll_count_nonneg[OF r Cons.prems(2)] Cons.IH[OF rest] show ?case by simp
qed

lemma reachable_count_nonneg: "reachable state \<Longrightarrow> 0 \<le> consecutive_count state"
  unfolding reachable_def using run_rolls_count_nonneg[of _ initial_state state]
  by (auto simp: initial_state_def)

lemma pool_without_skipped:
  assumes "skip_next state = Some p" "q \<in> set players" "q \<noteq> p"
  shows "p \<notin> set (eligible_pool players state)"
proof -
  from assms have "q \<in> set (filter (\<lambda>x. Some x \<noteq> skip_next state) players)" by simp
  then have "filter (\<lambda>x. Some x \<noteq> skip_next state) players \<noteq> []"
    by (metis empty_iff list.set(1))
  then show ?thesis using assms(1) by (auto simp: eligible_pool_def Let_def)
qed

lemma pool_no_skip: "skip_next state = None \<Longrightarrow> players \<noteq> [] \<Longrightarrow> eligible_pool players state = players"
  by (simp add: eligible_pool_def Let_def)

text \<open>
  C8. With at least two different players in the list and a reachable turn state: when two
  consecutive rolls choose the same player, the second roll schedules the skip, the player
  is not in the pool of the roll that follows, whoever that roll chooses is another player,
  and the player is in the pool again of the roll after that.
\<close>

theorem two_in_a_row_sits_out_once:
  assumes "reachable s0" and "2 \<le> card (set players)"
    and "roll_next_turn players s0 d1 = Inr (r1, s1)"
    and "roll_next_turn players s1 d2 = Inr (r2, s2)"
    and "r_player r2 = r_player r1"
  shows "r_forced_skip r2 \<and> skip_next s2 = Some (r_player r1)
       \<and> r_player r1 \<notin> set (eligible_pool players s2)
       \<and> (\<forall>d3. \<exists>r3 s3. roll_next_turn players s2 d3 = Inr (r3, s3)
             \<and> r_player r3 \<noteq> r_player r1
             \<and> r_player r1 \<in> set (eligible_pool players s3))"
proof -
  let ?p = "r_player r1"
  from assms(2) have ne: "players \<noteq> []" by auto
  have "\<exists>q \<in> set players. q \<noteq> ?p"
  proof (rule ccontr)
    assume "\<not> (\<exists>q \<in> set players. q \<noteq> ?p)"
    then have "set players \<subseteq> {?p}" by auto
    then have "card (set players) \<le> card {?p}" by (intro card_mono) simp_all
    with assms(2) show False by simp
  qed
  then obtain q where q: "q \<in> set players" "q \<noteq> ?p" by blast
  note c0 = reachable_count_nonneg[OF assms(1)]
  from roll_result[OF ne, of s0 d1] assms(3)
  have p_in: "?p \<in> set (eligible_pool players s0)"
    and l1: "last_player s1 = Some ?p"
    and k1: "skip_next s1 = (if 2 \<le> (if Some ?p = last_player s0 then consecutive_count s0 + 1 else 1)
                            then Some ?p else None)"
    and n1: "consecutive_count s1 = (if 2 \<le> (if Some ?p = last_player s0 then consecutive_count s0 + 1 else 1)
                            then 0 else (if Some ?p = last_player s0 then consecutive_count s0 + 1 else 1))"
    by (auto simp: Let_def)
  from p_in eligible_pool_props(2)[OF ne, of s0] have p_pl: "?p \<in> set players" by blast
  from roll_result[OF ne, of s1 d2] assms(4,5)
  have p_in1: "?p \<in> set (eligible_pool players s1)"
    and f2: "r_forced_skip r2 = (2 \<le> (if Some ?p = last_player s1 then consecutive_count s1 + 1 else 1))"
    and k2: "skip_next s2 = (if 2 \<le> (if Some ?p = last_player s1 then consecutive_count s1 + 1 else 1)
                            then Some ?p else None)"
    and l2: "last_player s2 = Some ?p"
    by (auto simp: Let_def)
  have nk1: "skip_next s1 \<noteq> Some ?p"
    using pool_without_skipped[OF _ q, of s1] p_in1 by blast
  with k1 have "\<not> 2 \<le> (if Some ?p = last_player s0 then consecutive_count s0 + 1 else 1)"
    by (auto split: if_splits)
  with n1 c0 have "consecutive_count s1 = 1" by (auto split: if_splits)
  with l1 f2 k2 have forced: "r_forced_skip r2" and skip2: "skip_next s2 = Some ?p"
    by simp_all
  have out: "?p \<notin> set (eligible_pool players s2)"
    by (rule pool_without_skipped[OF skip2 q])
  have after: "\<exists>r3 s3. roll_next_turn players s2 d3 = Inr (r3, s3)
             \<and> r_player r3 \<noteq> ?p \<and> ?p \<in> set (eligible_pool players s3)" for d3
  proof -
    from roll_result[OF ne, of s2 d3]
    obtain r3 s3 where r3: "roll_next_turn players s2 d3 = Inr (r3, s3)"
      and m3: "r_player r3 \<in> set (eligible_pool players s2)"
      and k3: "skip_next s3 = (if 2 \<le> (if Some (r_player r3) = last_player s2 then consecutive_count s2 + 1 else 1)
                              then Some (r_player r3) else None)"
      by (auto simp: Let_def)
    from m3 out have d: "r_player r3 \<noteq> ?p" by auto
    with k3 l2 have "skip_next s3 = None" by simp
    from pool_no_skip[OF this ne] p_pl have "?p \<in> set (eligible_pool players s3)" by simp
    with r3 d show ?thesis by blast
  qed
  from forced skip2 out after show ?thesis by blast
qed

theorem two_in_a_row_sits_out_once_witness:
  "reachable initial_state
   \<and> 2 \<le> card (set [''P1'', ''P2'', ''BOT''])
   \<and> r_player (fst (projr (roll_next_turn [''P1'', ''P2'', ''BOT''] initial_state 1))) = ''P2''
   \<and> r_player (fst (projr (roll_next_turn [''P1'', ''P2'', ''BOT'']
         (snd (projr (roll_next_turn [''P1'', ''P2'', ''BOT''] initial_state 1))) 1))) = ''P2''
   \<and> ''P2'' \<notin> set (eligible_pool [''P1'', ''P2'', ''BOT'']
         (snd (projr (roll_next_turn [''P1'', ''P2'', ''BOT'']
            (snd (projr (roll_next_turn [''P1'', ''P2'', ''BOT''] initial_state 1))) 1))))"
proof -
  define ps where "ps = [''P1'', ''P2'', ''BOT'']"
  define r1 where "r1 = fst (projr (roll_next_turn ps initial_state 1))"
  define s1 where "s1 = snd (projr (roll_next_turn ps initial_state 1))"
  define r2 where "r2 = fst (projr (roll_next_turn ps s1 1))"
  define s2 where "s2 = snd (projr (roll_next_turn ps s1 1))"
  have ne: "ps \<noteq> []" by (simp add: ps_def)
  have re: "reachable initial_state"
    unfolding reachable_def by (rule exI[of _ "[]"]) simp
  have c: "2 \<le> card (set ps)" unfolding ps_def by simp
  have e1: "roll_next_turn ps initial_state 1 = Inr (r1, s1)"
    using roll_result[OF ne, of initial_state 1] by (auto simp: r1_def s1_def)
  have e2: "roll_next_turn ps s1 1 = Inr (r2, s2)"
    using roll_result[OF ne, of s1 1] by (auto simp: r2_def s2_def)
  have p1: "r_player r1 = ''P2''"
    unfolding r1_def ps_def by (simp add: roll_next_turn_def eligible_pool_def initial_state_def Let_def)
  have sk1: "skip_next s1 = None"
    unfolding s1_def ps_def by (simp add: roll_next_turn_def eligible_pool_def initial_state_def Let_def)
  have p2: "r_player r2 = ''P2''"
    using roll_result[OF ne, of s1 1] e2 pool_no_skip[OF sk1 ne] by (simp add: ps_def)
  from two_in_a_row_sits_out_once[OF re c e1 e2] p1 p2
  have "r_player r1 \<notin> set (eligible_pool ps s2)" by simp
  with re c p1 p2 show ?thesis
    unfolding r1_def s1_def r2_def s2_def ps_def by simp
qed

section \<open>Adversarial search\<close>

text \<open>
  Scores are Python numbers together with \<^verbatim>\<open>-math.inf\<close> and \<^verbatim>\<open>math.inf\<close>, ordered as Python
  compares them.
\<close>

datatype score = NegInf | Fin real | PosInf

instantiation score :: linorder
begin

fun less_eq_score :: "score \<Rightarrow> score \<Rightarrow> bool" where
  "less_eq_score NegInf _ = True"
| "less_eq_score _ PosInf = True"
| "less_eq_score (Fin x) (Fin y) = (x \<le> y)"
| "less_eq_score _ _ = False"

definition less_score :: "score \<Rightarrow> score \<Rightarrow> bool" where
  "less_score a b = (a \<le> b \<and> \<not> b \<le> a)"

instance
proof
  fix x y z :: score
  show "(x < y) = (x \<le> y \<and> \<not> y \<le> x)" by (simp add: less_score_def)
  show "x \<le> x" by (cases x) simp_all
  show "x \<le> y \<Longrightarrow> y \<le> z \<Longrightarrow> x \<le> z" by (cases x; cases y; cases z) simp_all
  show "x \<le> y \<Longrightarrow> y \<le> x \<Longrightarrow> x = y" by (cases x; cases y) simp_all
  show "x \<le> y \<or> y \<le> x" by (cases x; cases y) auto
qed

end

lemma NegInf_least [simp]: "NegInf \<le> x" by simp
lemma PosInf_greatest [simp]: "x \<le> PosInf" by (cases x) simp_all
lemma NegInf_less_PosInf [simp]: "NegInf < PosInf" by (simp add: less_score_def)
lemma max_NegInf [simp]: "max NegInf x = x" "max x NegInf = x"
  by (simp_all add: max_absorb1 max_absorb2)
lemma min_PosInf [simp]: "min PosInf x = x" "min x PosInf = x"
  by (simp_all add: min_absorb1 min_absorb2)

text \<open>\<^verbatim>\<open>[c for c in range(COLS) if find_drop_row(board, c) is not None]\<close>\<close>

definition valid_columns :: "board \<Rightarrow> nat list" where
  "valid_columns b = filter (\<lambda>c. find_drop_row b c \<noteq> None) [0..<COLS]"

text \<open>
  Lines 92 to 97 of \<^verbatim>\<open>minimax\<close>: the score of a position that the last move has won, if it has.
\<close>

definition win_score :: "board \<Rightarrow> int \<Rightarrow> string \<Rightarrow> (nat \<times> nat) option \<Rightarrow> real option" where
  "win_score b depth bot_id last_move =
     (case last_move of
        None \<Rightarrow> None
      | Some (r, c) \<Rightarrow>
          if check_win b (int r) (int c) (int CONNECT_N)
          then (if b ! r ! c = Some bot_id
                then Some (WIN_SCORE + real_of_int depth)
                else Some (- WIN_SCORE - real_of_int depth))
          else None)"

text \<open>
  The loop of the maximizing layer over the remaining columns, with the running \<open>value\<close>,
  \<open>alpha\<close> and node counter; \<open>f col alpha nodes\<close> is the body up to the recursive call.
\<close>

fun max_loop ::
  "(nat \<Rightarrow> score \<Rightarrow> nat \<Rightarrow> error + (score \<times> nat)) \<Rightarrow> score \<Rightarrow> nat list \<Rightarrow> score \<Rightarrow> score \<Rightarrow> nat
     \<Rightarrow> error + (score \<times> nat)" where
  "max_loop f beta [] val alpha nodes = Inr (val, nodes)"
| "max_loop f beta (col # cols) val alpha nodes =
     (case f col alpha nodes of
        Inl e \<Rightarrow> Inl e
      | Inr (sc, nodes') \<Rightarrow>
          (let val' = max val sc; alpha' = max alpha val'
           in if beta \<le> alpha' then Inr (val', nodes')
              else max_loop f beta cols val' alpha' nodes'))"

text \<open>
  The inner loop of the minimizing layer over the remaining opponents, and the outer loop
  over the remaining columns, which tests \<^verbatim>\<open>beta <= alpha\<close> again after the inner loop.
\<close>

fun opp_loop ::
  "(string \<Rightarrow> score \<Rightarrow> nat \<Rightarrow> error + (score \<times> nat)) \<Rightarrow> score \<Rightarrow> string list \<Rightarrow> score \<Rightarrow> score \<Rightarrow> nat
     \<Rightarrow> error + (score \<times> score \<times> nat)" where
  "opp_loop g alpha [] val beta nodes = Inr (val, beta, nodes)"
| "opp_loop g alpha (opp # opps) val beta nodes =
     (case g opp beta nodes of
        Inl e \<Rightarrow> Inl e
      | Inr (sc, nodes') \<Rightarrow>
          (let val' = (if sc < val then sc else val); beta' = min beta val'
           in if beta' \<le> alpha then Inr (val', beta', nodes')
              else opp_loop g alpha opps val' beta' nodes'))"

fun min_loop ::
  "(nat \<Rightarrow> score \<Rightarrow> score \<Rightarrow> nat \<Rightarrow> error + (score \<times> score \<times> nat)) \<Rightarrow> score \<Rightarrow> nat list
     \<Rightarrow> score \<Rightarrow> score \<Rightarrow> nat \<Rightarrow> error + (score \<times> nat)" where
  "min_loop h alpha [] val beta nodes = Inr (val, nodes)"
| "min_loop h alpha (col # cols) val beta nodes =
     (case h col val beta nodes of
        Inl e \<Rightarrow> Inl e
      | Inr (val', beta', nodes') \<Rightarrow>
          if beta' \<le> alpha then Inr (val', nodes')
          else min_loop h alpha cols val' beta' nodes')"

lemma max_loop_cong [fundef_cong]:
  assumes "cols = cols'" "beta = beta'" "val = val'" "alpha = alpha'" "nodes = nodes'"
    and "\<And>col a n. col \<in> set cols' \<Longrightarrow> f col a n = f' col a n"
  shows "max_loop f beta cols val alpha nodes = max_loop f' beta' cols' val' alpha' nodes'"
  unfolding assms(1-5) using assms(6)
  by (induction cols' arbitrary: val' alpha' nodes') (auto split: sum.splits simp: Let_def)

lemma opp_loop_cong [fundef_cong]:
  assumes "opps = opps'" "alpha = alpha'" "val = val'" "beta = beta'" "nodes = nodes'"
    and "\<And>opp bt n. opp \<in> set opps' \<Longrightarrow> g opp bt n = g' opp bt n"
  shows "opp_loop g alpha opps val beta nodes = opp_loop g' alpha' opps' val' beta' nodes'"
  unfolding assms(1-5) using assms(6)
  by (induction opps' arbitrary: val' beta' nodes') (auto split: sum.splits simp: Let_def)

lemma min_loop_cong [fundef_cong]:
  assumes "cols = cols'" "alpha = alpha'" "val = val'" "beta = beta'" "nodes = nodes'"
    and "\<And>col v bt n. col \<in> set cols' \<Longrightarrow> h col v bt n = h' col v bt n"
  shows "min_loop h alpha cols val beta nodes = min_loop h' alpha' cols' val' beta' nodes'"
  unfolding assms(1-5) using assms(6)
  by (induction cols' arbitrary: val' beta' nodes') (auto split: sum.splits)

text \<open>The number of empty cells of a board: what every move of the search decreases.\<close>

definition empties :: "board \<Rightarrow> nat" where
  "empties b = sum_list (map (\<lambda>row. count_list row None) b)"

lemma count_list_update_None:
  "c < length row \<Longrightarrow> row ! c = None \<Longrightarrow> Suc (count_list (row[c := Some p]) None) = count_list row None"
proof (induction row arbitrary: c)
  case Nil
  then show ?case by simp
next
  case (Cons x row)
  then show ?case by (cases c) auto
qed

lemma sum_list_map_update:
  "r < length b \<Longrightarrow> sum_list (map f (b[r := x])) + f (b ! r) = sum_list (map f b) + (f x :: nat)"
proof (induction b arbitrary: r)
  case Nil
  then show ?case by simp
next
  case (Cons y b)
  then show ?case by (cases r) (auto simp: add.assoc)
qed

lemma place_disc_empties:
  assumes "find_drop_row b col = Some row" "place_disc b row col p = Some child"
  shows "empties child < empties b"
proof -
  from assms(2) have r: "row < length b" and c: "col < length (b ! row)"
    and child: "child = b[row := (b ! row)[col := Some p]]"
    by (auto simp: place_disc_def split: if_splits)
  from find_drop_row_Some[OF assms(1)] have e: "b ! row ! col = None" by simp
  from sum_list_map_update[OF r, of "\<lambda>row. count_list row None" "(b ! row)[col := Some p]"]
    count_list_update_None[OF c e, of p]
  show ?thesis by (simp add: empties_def child)
qed

text \<open>
  \<^verbatim>\<open>minimax\<close>. The node counter \<^verbatim>\<open>nodes[0]\<close> is the last argument and comes back with the
  score; the tests are in the source's order (win of the last move, depth or full board, no
  valid column); the maximizing loop starts from \<^verbatim>\<open>-math.inf\<close>, the minimizing loops from
  \<^verbatim>\<open>math.inf\<close>. The depth is a Python integer and only stops the search at \<open>0\<close>; the
  recursion ends because every call has one empty cell less.
\<close>

function minimax ::
  "board \<Rightarrow> int \<Rightarrow> bool \<Rightarrow> string \<Rightarrow> string list \<Rightarrow> score \<Rightarrow> score \<Rightarrow> (nat \<times> nat) option \<Rightarrow> nat
     \<Rightarrow> error + (score \<times> nat)" where
  "minimax b depth maximizing bot_id opponents alpha beta last_move nodes =
     (case win_score b depth bot_id last_move of
        Some s \<Rightarrow> Inr (Fin s, nodes + 1)
      | None \<Rightarrow>
          if depth = 0 \<or> board_is_full b
          then Inr (Fin (evaluate_board b bot_id opponents), nodes + 1)
          else if valid_columns b = []
          then Inr (Fin (evaluate_board b bot_id opponents), nodes + 1)
          else if maximizing
          then max_loop
                 (\<lambda>col alpha nodes.
                    case find_drop_row b col of
                      None \<Rightarrow> Inl AssertionError
                    | Some row \<Rightarrow>
                        (case place_disc b row col bot_id of
                           None \<Rightarrow> Inl IndexError
                         | Some child_board \<Rightarrow>
                             minimax child_board (depth - 1) False bot_id opponents alpha beta
                               (Some (row, col)) nodes))
                 beta (valid_columns b) NegInf alpha (nodes + 1)
          else min_loop
                 (\<lambda>col val beta nodes.
                    case find_drop_row b col of
                      None \<Rightarrow> Inl AssertionError
                    | Some row \<Rightarrow>
                        opp_loop
                          (\<lambda>opp beta nodes.
                             case place_disc b row col opp of
                               None \<Rightarrow> Inl IndexError
                             | Some child_board \<Rightarrow>
                                 minimax child_board (depth - 1) True bot_id opponents alpha beta
                                   (Some (row, col)) nodes)
                          alpha opponents val beta nodes)
                 alpha (valid_columns b) PosInf beta (nodes + 1))"
  by pat_completeness auto
termination
  by (relation "measure (\<lambda>(b, depth, maximizing, bot_id, opponents, alpha, beta, last_move, nodes). empties b)")
     (auto simp: place_disc_empties)

declare minimax.simps [simp del]


text \<open>
  The words of the specification, for the comparison: an unpruned full minimax search of
  the same tree. A player moves by dropping a disc into a playable column (\<open>drop_disc\<close>
  gives the new position and the cell); the value of a position is its win score or static evaluation at a leaf, the
  maximum of the values of the bot's moves at a maximizing node, and the minimum of the
  values of every opponent's moves at a minimizing node.
\<close>

definition maximum :: "score list \<Rightarrow> score" where
  "maximum xs = foldr max xs NegInf"

definition minimum :: "score list \<Rightarrow> score" where
  "minimum xs = foldr min xs PosInf"

definition drop_disc :: "board \<Rightarrow> string \<Rightarrow> nat \<Rightarrow> (board \<times> nat \<times> nat) option" where
  "drop_disc b player col =
     (case find_drop_row b col of
        None \<Rightarrow> None
      | Some row \<Rightarrow>
          (case place_disc b row col player of
             None \<Rightarrow> None
           | Some child \<Rightarrow> Some (child, row, col)))"

function full_minimax ::
  "board \<Rightarrow> int \<Rightarrow> bool \<Rightarrow> string \<Rightarrow> string list \<Rightarrow> (nat \<times> nat) option \<Rightarrow> score" where
  "full_minimax b depth maximizing bot_id opponents last_move =
     (case win_score b depth bot_id last_move of
        Some s \<Rightarrow> Fin s
      | None \<Rightarrow>
          if depth = 0 \<or> board_is_full b \<or> valid_columns b = []
          then Fin (evaluate_board b bot_id opponents)
          else if maximizing
          then maximum (map (\<lambda>col. case drop_disc b bot_id col of
                                      None \<Rightarrow> NegInf
                                    | Some (child, row, col) \<Rightarrow>
                                        full_minimax child (depth - 1) False bot_id opponents (Some (row, col)))
                            (valid_columns b))
          else minimum (concat (map (\<lambda>col.
                          map (\<lambda>opp. case drop_disc b opp col of
                                        None \<Rightarrow> PosInf
                                      | Some (child, row, col) \<Rightarrow>
                                          full_minimax child (depth - 1) True bot_id opponents (Some (row, col)))
                              opponents)
                          (valid_columns b))))"
  by pat_completeness auto
termination
  by (relation "measure (\<lambda>(b, depth, maximizing, bot_id, opponents, last_move). empties b)")
     (auto simp: drop_disc_def place_disc_empties split: option.splits)

declare full_minimax.simps [simp del]

definition full_search_score :: "board \<Rightarrow> string \<Rightarrow> string list \<Rightarrow> int \<Rightarrow> score" where
  "full_search_score b bot_id opponents depth =
     maximum (map (\<lambda>col. case drop_disc b bot_id col of
                            None \<Rightarrow> NegInf
                          | Some (child, row, col) \<Rightarrow>
                              full_minimax child (depth - 1) False bot_id opponents (Some (row, col)))
                  (valid_columns b))"


section \<open>Pruning does not change the value\<close>

text \<open>
  \<open>ab_sound alpha beta v s\<close>: the result \<open>s\<close> of a search with the window \<open>(alpha, beta)\<close>
  determines the true value \<open>v\<close> as far as the window needs it: it is \<open>v\<close> when \<open>v\<close> lies
  inside the window, at most \<open>alpha\<close> when \<open>v\<close> is, and at least \<open>beta\<close> when \<open>v\<close> is.
\<close>

definition ab_sound :: "score \<Rightarrow> score \<Rightarrow> score \<Rightarrow> score \<Rightarrow> bool" where
  "ab_sound alpha beta v s = (min v beta \<le> s \<and> s \<le> max v alpha)"

lemma ab_sound_refl: "ab_sound alpha beta v v"
  by (simp add: ab_sound_def)

lemma ab_sound_full: "ab_sound NegInf PosInf v s \<Longrightarrow> s = v"
  by (simp add: ab_sound_def antisym)

lemma maximum_Cons [simp]: "maximum (x # xs) = max x (maximum xs)" "maximum [] = NegInf"
  by (simp_all add: maximum_def)

lemma minimum_Cons [simp]: "minimum (x # xs) = min x (minimum xs)" "minimum [] = PosInf"
  by (simp_all add: minimum_def)

lemma minimum_append: "minimum (xs @ ys) = min (minimum xs) (minimum ys)"
  by (induction xs) (simp_all add: min.assoc)

lemma minimum_concat:
  "minimum (concat (map (\<lambda>x. map (f x) ys) xs)) = minimum (map (\<lambda>x. minimum (map (f x) ys)) xs)"
  by (induction xs) (simp_all add: minimum_append)

lemma max_break:
  fixes alpha :: "'a::linorder"
  assumes "alpha < beta" "min v beta \<le> s" "s \<le> max v alpha" "beta \<le> max alpha (max val s)"
  shows "min (max val (max v V)) beta \<le> max val s" and "max val s \<le> max (max val (max v V)) alpha"
  using assms by (auto simp: min_le_iff_disj le_max_iff_disj)

lemma max_cont:
  fixes alpha :: "'a::linorder"
  assumes "alpha < beta" "min v beta \<le> s" "s \<le> max v alpha"
    and "min (max (max val s) V) beta \<le> R" "R \<le> max (max (max val s) V) (max alpha (max val s))"
  shows "min (max val (max v V)) beta \<le> R" and "R \<le> max (max val (max v V)) alpha"
  using assms by (auto simp: min_le_iff_disj le_max_iff_disj)

lemma max_loop_sound:
  assumes "\<forall>col \<in> set cols. \<forall>a n. a < beta \<longrightarrow> (\<exists>s m. f col a n = Inr (s, m) \<and> ab_sound a beta (v col) s)"
    and "alpha < beta"
  shows "\<exists>R m. max_loop f beta cols val alpha nodes = Inr (R, m)
           \<and> ab_sound alpha beta (max val (maximum (map v cols))) R"
  using assms
proof (induction cols arbitrary: val alpha nodes)
  case Nil
  then show ?case by (simp add: ab_sound_def)
next
  case (Cons col cols)
  from Cons.prems obtain s m where f: "f col alpha nodes = Inr (s, m)"
    and w: "ab_sound alpha beta (v col) s"
    by (meson list.set_intros(1))
  let ?val = "max val s" and ?V = "maximum (map v cols)"
  show ?case
  proof (cases "beta \<le> max alpha ?val")
    case True
    with f have "max_loop f beta (col # cols) val alpha nodes = Inr (?val, m)"
      by (simp add: Let_def)
    moreover have "ab_sound alpha beta (max val (max (v col) ?V)) ?val"
      using max_break[OF Cons.prems(2) _ _ True, of "v col" ?V] w by (simp add: ab_sound_def)
    ultimately show ?thesis by simp
  next
    case False
    then have lt: "max alpha ?val < beta" using not_le by blast
    from Cons.prems(1) have
      "\<forall>c \<in> set cols. \<forall>a n. a < beta \<longrightarrow> (\<exists>s m. f c a n = Inr (s, m) \<and> ab_sound a beta (v c) s)"
      by simp
    from Cons.IH[OF this lt, of ?val m]
    obtain R m' where r: "max_loop f beta cols ?val (max alpha ?val) m = Inr (R, m')"
      and wr: "ab_sound (max alpha ?val) beta (max ?val ?V) R"
      by blast
    from f False r have "max_loop f beta (col # cols) val alpha nodes = Inr (R, m')"
      by (simp add: Let_def)
    moreover have "ab_sound alpha beta (max val (max (v col) ?V)) R"
      using max_cont[OF Cons.prems(2), of "v col" s val ?V R] w wr by (simp add: ab_sound_def)
    ultimately show ?thesis by simp
  qed
qed


lemma min_break:
  fixes alpha :: "'a::linorder"
  assumes "alpha < beta" "min v beta \<le> s" "s \<le> max v alpha" "min beta (min val s) \<le> alpha"
  shows "min (min val (min v V)) beta \<le> min val s" and "min val s \<le> max (min val (min v V)) alpha"
  using assms by (auto simp: min_le_iff_disj le_max_iff_disj)

lemma min_cont:
  fixes alpha :: "'a::linorder"
  assumes "alpha < beta" "min v beta \<le> s" "s \<le> max v alpha"
    and "min (min (min val s) V) (min beta (min val s)) \<le> R" "R \<le> max (min (min val s) V) alpha"
  shows "min (min val (min v V)) beta \<le> R" and "R \<le> max (min val (min v V)) alpha"
  using assms by (auto simp: min_le_iff_disj le_max_iff_disj)

lemma if_less_min: "(if s < val then s else val) = min val (s::score)"
  by (auto simp: min_def)

lemma opp_loop_sound:
  assumes "\<forall>opp \<in> set opps. \<forall>bt n. alpha < bt \<longrightarrow> (\<exists>s m. g opp bt n = Inr (s, m) \<and> ab_sound alpha bt (v opp) s)"
    and "alpha < beta" and "beta \<le> val"
  shows "\<exists>val' beta' m. opp_loop g alpha opps val beta nodes = Inr (val', beta', m)
           \<and> beta' = min beta val' \<and> val' \<le> val
           \<and> ab_sound alpha beta (min val (minimum (map v opps))) val'"
  using assms
proof (induction opps arbitrary: val beta nodes)
  case Nil
  then show ?case by (simp add: ab_sound_def min_absorb1)
next
  case (Cons opp opps)
  from Cons.prems obtain s m where g: "g opp beta nodes = Inr (s, m)"
    and w: "ab_sound alpha beta (v opp) s"
    by (meson list.set_intros(1))
  let ?val = "min val s" and ?V = "minimum (map v opps)"
  let ?beta = "min beta ?val"
  show ?case
  proof (cases "?beta \<le> alpha")
    case True
    with g have "opp_loop g alpha (opp # opps) val beta nodes = Inr (?val, ?beta, m)"
      by (simp add: Let_def if_less_min)
    moreover have "ab_sound alpha beta (min val (min (v opp) ?V)) ?val"
      using min_break[OF Cons.prems(2) _ _ True, of "v opp" ?V] w by (simp add: ab_sound_def)
    ultimately show ?thesis by simp
  next
    case False
    then have lt: "alpha < ?beta" using not_le by blast
    from Cons.prems(1) have
      "\<forall>o' \<in> set opps. \<forall>bt n. alpha < bt \<longrightarrow> (\<exists>s m. g o' bt n = Inr (s, m) \<and> ab_sound alpha bt (v o') s)"
      by simp
    from Cons.IH[OF this lt min.cobounded2, where nodes = m] obtain val' beta' m'
      where r: "opp_loop g alpha opps ?val ?beta m = Inr (val', beta', m')"
        and b': "beta' = min ?beta val'" and le: "val' \<le> ?val"
        and wr: "ab_sound alpha ?beta (min ?val ?V) val'"
      by auto
    from g False r have "opp_loop g alpha (opp # opps) val beta nodes = Inr (val', beta', m')"
      by (simp add: Let_def if_less_min)
    moreover have "beta' = min beta val'" using b' le by (simp add: min.assoc min_absorb2)
    moreover have "val' \<le> val" using le by simp
    moreover have "ab_sound alpha beta (min val (min (v opp) ?V)) val'"
      using min_cont[OF Cons.prems(2), of "v opp" s val ?V val'] w wr by (simp add: ab_sound_def)
    ultimately show ?thesis by simp
  qed
qed

lemma outer_break:
  fixes alpha :: "'a::linorder"
  assumes "alpha < beta" "min (min val vc) beta \<le> val'" "val' \<le> max (min val vc) alpha"
    and "min beta val' \<le> alpha"
  shows "min (min val (min vc V)) beta \<le> val'" and "val' \<le> max (min val (min vc V)) alpha"
  using assms by (auto simp: min_le_iff_disj le_max_iff_disj)

lemma outer_cont:
  fixes alpha :: "'a::linorder"
  assumes "alpha < beta" "min (min val vc) beta \<le> val'" "val' \<le> max (min val vc) alpha"
    and "min (min val' V) (min beta val') \<le> R" "R \<le> max (min val' V) alpha"
  shows "min (min val (min vc V)) beta \<le> R" and "R \<le> max (min val (min vc V)) alpha"
  using assms by (auto simp: min_le_iff_disj le_max_iff_disj)

lemma min_loop_sound:
  assumes "\<forall>col \<in> set cols. \<forall>vl bt n. alpha < bt \<longrightarrow> bt \<le> vl \<longrightarrow>
             (\<exists>val' beta' m. h col vl bt n = Inr (val', beta', m)
                \<and> beta' = min bt val' \<and> val' \<le> vl \<and> ab_sound alpha bt (min vl (vc col)) val')"
    and "alpha < beta" and "beta \<le> val"
  shows "\<exists>R m. min_loop h alpha cols val beta nodes = Inr (R, m)
           \<and> ab_sound alpha beta (min val (minimum (map vc cols))) R"
  using assms
proof (induction cols arbitrary: val beta nodes)
  case Nil
  then show ?case by (simp add: ab_sound_def)
next
  case (Cons col cols)
  from Cons.prems(1) have "\<forall>vl bt n. alpha < bt \<longrightarrow> bt \<le> vl \<longrightarrow>
             (\<exists>val' beta' m. h col vl bt n = Inr (val', beta', m)
                \<and> beta' = min bt val' \<and> val' \<le> vl \<and> ab_sound alpha bt (min vl (vc col)) val')"
    by simp
  from this[rule_format, OF Cons.prems(2) Cons.prems(3), of nodes]
  obtain val' beta' m where h: "h col val beta nodes = Inr (val', beta', m)"
    and b': "beta' = min beta val'" and le: "val' \<le> val"
    and w: "ab_sound alpha beta (min val (vc col)) val'"
    by blast
  let ?V = "minimum (map vc cols)"
  show ?case
  proof (cases "beta' \<le> alpha")
    case True
    with h have "min_loop h alpha (col # cols) val beta nodes = Inr (val', m)" by simp
    moreover have "ab_sound alpha beta (min val (min (vc col) ?V)) val'"
      using outer_break[OF Cons.prems(2), of val "vc col" val' ?V] w True b'
      by (simp add: ab_sound_def)
    ultimately show ?thesis by simp
  next
    case False
    then have lt: "alpha < beta'" using not_le by blast
    have bl: "beta' \<le> val'" using b' by simp
    from Cons.prems(1) have
      "\<forall>c \<in> set cols. \<forall>vl bt n. alpha < bt \<longrightarrow> bt \<le> vl \<longrightarrow>
             (\<exists>val' beta' m. h c vl bt n = Inr (val', beta', m)
                \<and> beta' = min bt val' \<and> val' \<le> vl \<and> ab_sound alpha bt (min vl (vc c)) val')"
      by simp
    from Cons.IH[OF this lt bl, where nodes = m] obtain R m'
      where r: "min_loop h alpha cols val' beta' m = Inr (R, m')"
        and wr: "ab_sound alpha beta' (min val' ?V) R"
      by blast
    from h False r have "min_loop h alpha (col # cols) val beta nodes = Inr (R, m')" by simp
    moreover have "ab_sound alpha beta (min val (min (vc col) ?V)) R"
      using outer_cont[OF Cons.prems(2), of val "vc col" val' ?V R] w wr b'
      by (simp add: ab_sound_def)
    ultimately show ?thesis by simp
  qed
qed


lemma valid_columns_iff:
  "col \<in> set (valid_columns b) \<longleftrightarrow> col < COLS \<and> find_drop_row b col \<noteq> None"
  by (auto simp: valid_columns_def)

lemma wf_place_disc:
  assumes "wf_board b" "col < COLS" "find_drop_row b col = Some row"
  shows "\<exists>child. place_disc b row col p = Some child \<and> wf_board child"
proof -
  from find_drop_row_Some[OF assms(3)] have r: "row < ROWS" by simp
  from assms(1) have len: "length b = ROWS" and rows: "\<forall>x \<in> set b. length x = COLS"
    by (simp_all add: wf_board_def list_all_iff)
  from r len rows have c: "length (b ! row) = COLS" by simp
  have "wf_board (b[row := (b ! row)[col := Some p]])"
    using len rows c by (auto simp: wf_board_def list_all_iff dest!: set_update_subset_insert[THEN subsetD])
  with r len c assms(2) show ?thesis by (simp add: place_disc_def)
qed

lemma valid_column_child:
  assumes "wf_board b" "col \<in> set (valid_columns b)"
  shows "\<exists>row child. find_drop_row b col = Some row \<and> place_disc b row col p = Some child
           \<and> drop_disc b p col = Some (child, row, col)
           \<and> wf_board child \<and> empties child < empties b"
proof -
  from assms(2) obtain row where c: "col < COLS" and r: "find_drop_row b col = Some row"
    by (auto simp: valid_columns_iff)
  from wf_place_disc[OF assms(1) c r, of p] obtain child
    where p: "place_disc b row col p = Some child" and w: "wf_board child" by blast
  from place_disc_empties[OF r p] r p w show ?thesis by (simp add: drop_disc_def)
qed

lemma minimax_sound:
  assumes "wf_board b" "alpha < beta"
  shows "\<exists>s m. minimax b depth mx bot_id opps alpha beta lm nodes = Inr (s, m)
           \<and> ab_sound alpha beta (full_minimax b depth mx bot_id opps lm) s"
  using assms
proof (induction "empties b" arbitrary: b depth mx alpha beta lm nodes rule: less_induct)
  case less
  note wf = less.prems(1) and ab = less.prems(2)
  note IH = less.hyps
  show ?case
  proof (cases "win_score b depth bot_id lm")
    case (Some s)
    then show ?thesis
      by (simp add: minimax.simps[of b] full_minimax.simps[of b] ab_sound_refl)
  next
    case None
    show ?thesis
    proof (cases "depth = 0 \<or> board_is_full b \<or> valid_columns b = []")
      case True
      with None show ?thesis
        by (auto simp: minimax.simps[of b] full_minimax.simps[of b] ab_sound_refl)
    next
      case False
      show ?thesis
      proof (cases mx)
        case True
        let ?f = "\<lambda>col alpha nodes.
                    case find_drop_row b col of
                      None \<Rightarrow> Inl AssertionError
                    | Some row \<Rightarrow>
                        (case place_disc b row col bot_id of
                           None \<Rightarrow> Inl IndexError
                         | Some child_board \<Rightarrow>
                             minimax child_board (depth - 1) False bot_id opps alpha beta
                               (Some (row, col)) nodes)"
        let ?v = "\<lambda>col. case drop_disc b bot_id col of
                          None \<Rightarrow> NegInf
                        | Some (child, row, col) \<Rightarrow>
                            full_minimax child (depth - 1) False bot_id opps (Some (row, col))"
        have step: "\<forall>col \<in> set (valid_columns b). \<forall>a n. a < beta \<longrightarrow>
                      (\<exists>s m. ?f col a n = Inr (s, m) \<and> ab_sound a beta (?v col) s)"
        proof (intro ballI allI impI)
          fix col a n assume col: "col \<in> set (valid_columns b)" and a: "a < beta"
          from valid_column_child[OF wf col, of bot_id] obtain row child
            where r: "find_drop_row b col = Some row" and p: "place_disc b row col bot_id = Some child"
              and d: "drop_disc b bot_id col = Some (child, row, col)"
              and w: "wf_board child" and e: "empties child < empties b"
            by blast
          from IH[OF e w a, of "depth - 1" False "Some (row, col)" n] r p d
          show "\<exists>s m. ?f col a n = Inr (s, m) \<and> ab_sound a beta (?v col) s" by simp
        qed
        from max_loop_sound[of "valid_columns b" beta ?f ?v alpha NegInf "nodes + 1", OF step ab]
        show ?thesis
          using None False True by (simp add: minimax.simps[of b] full_minimax.simps[of b])
      next
        case mn: False
        let ?g = "\<lambda>row col opp beta nodes.
                             case place_disc b row col opp of
                               None \<Rightarrow> Inl IndexError
                             | Some child_board \<Rightarrow>
                                 minimax child_board (depth - 1) True bot_id opps alpha beta
                                   (Some (row, col)) nodes"
        let ?h = "\<lambda>col val beta nodes.
                    case find_drop_row b col of
                      None \<Rightarrow> Inl AssertionError
                    | Some row \<Rightarrow> opp_loop (?g row col) alpha opps val beta nodes"
        let ?v = "\<lambda>col opp. case drop_disc b opp col of
                              None \<Rightarrow> PosInf
                            | Some (child, row, col) \<Rightarrow>
                                full_minimax child (depth - 1) True bot_id opps (Some (row, col))"
        let ?vc = "\<lambda>col. minimum (map (?v col) opps)"
        have step: "\<forall>col \<in> set (valid_columns b). \<forall>vl bt n. alpha < bt \<longrightarrow> bt \<le> vl \<longrightarrow>
             (\<exists>val' beta' m. ?h col vl bt n = Inr (val', beta', m)
                \<and> beta' = min bt val' \<and> val' \<le> vl \<and> ab_sound alpha bt (min vl (?vc col)) val')"
        proof (intro ballI allI impI)
          fix col vl bt n assume col: "col \<in> set (valid_columns b)" and a: "alpha < bt" and bv: "bt \<le> vl"
          from valid_column_child[OF wf col, of bot_id] obtain row
            where r: "find_drop_row b col = Some row" by blast
          have inner: "\<forall>opp \<in> set opps. \<forall>bt n. alpha < bt \<longrightarrow>
                  (\<exists>s m. ?g row col opp bt n = Inr (s, m) \<and> ab_sound alpha bt (?v col opp) s)"
          proof (intro ballI allI impI)
            fix opp bt' n' assume a': "alpha < bt'"
            from valid_column_child[OF wf col, of opp] r obtain child
              where p: "place_disc b row col opp = Some child"
                and d: "drop_disc b opp col = Some (child, row, col)"
                and w: "wf_board child" and e: "empties child < empties b"
              by auto
            from IH[OF e w a', of "depth - 1" True "Some (row, col)" n'] p d
            show "\<exists>s m. ?g row col opp bt' n' = Inr (s, m) \<and> ab_sound alpha bt' (?v col opp) s"
              by simp
          qed
          from opp_loop_sound[of opps alpha "?g row col" "?v col" bt vl n, OF inner a bv] r
          show "\<exists>val' beta' m. ?h col vl bt n = Inr (val', beta', m)
                \<and> beta' = min bt val' \<and> val' \<le> vl \<and> ab_sound alpha bt (min vl (?vc col)) val'"
            by simp
        qed
        from min_loop_sound[of "valid_columns b" alpha ?h ?vc beta PosInf "nodes + 1", OF step ab]
        show ?thesis
          using None False mn
          by (simp add: minimax.simps[of b] full_minimax.simps[of b] minimum_concat)
      qed
    qed
  qed
qed


text \<open>
  \<^verbatim>\<open>infer_opponents\<close>: every identifier on the board that is not the bot's, or the two
  placeholders when there is none. Python returns them in the iteration order of a set,
  which is not specified; here they come in the order of their first appearance. The
  theorems below hold for every list of opponents, so for every order.
\<close>

definition infer_opponents :: "board \<Rightarrow> string \<Rightarrow> string list" where
  "infer_opponents b bot_id =
     (let ids = remdups (concat (map (\<lambda>row. concat (map (\<lambda>cell.
                   case cell of None \<Rightarrow> [] | Some p \<Rightarrow> if p \<noteq> bot_id then [p] else []) row)) b))
      in if ids = [] then [''P1'', ''P2''] else ids)"

text \<open>\<^verbatim>\<open>list(opponent_ids) if opponent_ids else infer_opponents(board, bot_id)\<close>\<close>

definition resolve_opponents :: "board \<Rightarrow> string \<Rightarrow> string list option \<Rightarrow> string list" where
  "resolve_opponents b bot_id opponent_ids =
     (case opponent_ids of
        None \<Rightarrow> infer_opponents b bot_id
      | Some ids \<Rightarrow> if ids \<noteq> [] then ids else infer_opponents b bot_id)"

text \<open>
  \<^verbatim>\<open>SearchResult\<close> without \<^verbatim>\<open>decision_ms\<close>, which is wall-clock time. The loop of
  \<^verbatim>\<open>choose_best_move\<close> over the remaining valid columns carries \<open>best_score\<close>, \<open>best_move\<close> and
  the node counter.
\<close>

record SearchResult =
  sr_column :: nat
  sr_row :: nat
  sr_score :: score
  sr_depth :: int
  sr_nodes :: nat

fun choose_loop ::
  "board \<Rightarrow> string \<Rightarrow> string list \<Rightarrow> int \<Rightarrow> nat list \<Rightarrow> score \<Rightarrow> (nat \<times> nat) option \<Rightarrow> nat
     \<Rightarrow> error + (score \<times> (nat \<times> nat) option \<times> nat)" where
  "choose_loop b bot_id opponents depth [] best_score best_move nodes =
     Inr (best_score, best_move, nodes)"
| "choose_loop b bot_id opponents depth (col # cols) best_score best_move nodes =
     (case find_drop_row b col of
        None \<Rightarrow> Inl AssertionError
      | Some drop_row \<Rightarrow>
          (case place_disc b drop_row col bot_id of
             None \<Rightarrow> Inl IndexError
           | Some child_board \<Rightarrow>
               (case minimax child_board (depth - 1) False bot_id opponents NegInf PosInf
                       (Some (drop_row, col)) nodes of
                  Inl e \<Rightarrow> Inl e
                | Inr (sc, nodes') \<Rightarrow>
                    if best_score < sc
                    then choose_loop b bot_id opponents depth cols sc (Some (drop_row, col)) nodes'
                    else choose_loop b bot_id opponents depth cols best_score best_move nodes')))"

definition choose_best_move ::
  "board \<Rightarrow> string \<Rightarrow> string list option \<Rightarrow> int \<Rightarrow> error + SearchResult" where
  "choose_best_move b bot_id opponent_ids depth =
     (let opponents = resolve_opponents b bot_id opponent_ids
      in if valid_columns b = [] then Inl ValueError
         else
           (case choose_loop b bot_id opponents depth (valid_columns b) NegInf None 0 of
              Inl e \<Rightarrow> Inl e
            | Inr (best_score, best_move, nodes) \<Rightarrow>
                (case best_move of
                   None \<Rightarrow> Inl RuntimeError
                 | Some (r, c) \<Rightarrow>
                     Inr \<lparr>sr_column = c, sr_row = r, sr_score = best_score,
                          sr_depth = depth, sr_nodes = nodes\<rparr>)))"

text \<open>
  The value the search returns for the position after the bot's drop into a column: the
  call \<^verbatim>\<open>choose_best_move\<close> makes for that column.
\<close>

definition search_value :: "board \<Rightarrow> string \<Rightarrow> string list \<Rightarrow> int \<Rightarrow> nat \<Rightarrow> score" where
  "search_value b bot_id opponents depth col =
     (case drop_disc b bot_id col of
        None \<Rightarrow> NegInf
      | Some (child, row, col) \<Rightarrow>
          (case minimax child (depth - 1) False bot_id opponents NegInf PosInf (Some (row, col)) 0 of
             Inl e \<Rightarrow> NegInf
           | Inr (s, nodes) \<Rightarrow> s))"

definition child_value :: "board \<Rightarrow> string \<Rightarrow> string list \<Rightarrow> int \<Rightarrow> nat \<Rightarrow> score" where
  "child_value b bot_id opponents depth col =
     (case drop_disc b bot_id col of
        None \<Rightarrow> NegInf
      | Some (child, row, col) \<Rightarrow>
          full_minimax child (depth - 1) False bot_id opponents (Some (row, col)))"

lemma full_search_score_eq:
  "full_search_score b bot_id opps depth = maximum (map (child_value b bot_id opps depth) (valid_columns b))"
  by (simp add: full_search_score_def child_value_def[abs_def])

lemma minimax_full_window:
  assumes "wf_board b"
  shows "\<exists>m. minimax b depth mx bot_id opps NegInf PosInf lm nodes
               = Inr (full_minimax b depth mx bot_id opps lm, m)"
  using minimax_sound[OF assms NegInf_less_PosInf, of depth mx bot_id opps lm nodes]
  by (auto dest: ab_sound_full)

lemma search_value_eq:
  assumes "wf_board b" "col \<in> set (valid_columns b)"
  shows "search_value b bot_id opps depth col = child_value b bot_id opps depth col"
proof -
  from valid_column_child[OF assms, of bot_id] obtain row child
    where d: "drop_disc b bot_id col = Some (child, row, col)" and w: "wf_board child"
    by blast
  from minimax_full_window[OF w, of "depth - 1" False bot_id opps "Some (row, col)" 0] d
  show ?thesis by (auto simp: search_value_def child_value_def)
qed

lemma minimum_not_NegInf: "\<forall>x \<in> set xs. x \<noteq> NegInf \<Longrightarrow> minimum xs \<noteq> NegInf"
  by (induction xs) (auto simp: min_def)

lemma maximum_ge: "x \<in> set xs \<Longrightarrow> x \<le> maximum xs"
  by (induction xs) (auto simp: le_max_iff_disj)

lemma maximum_le_iff: "maximum xs \<le> y \<longleftrightarrow> (\<forall>x \<in> set xs. x \<le> y)"
  by (induction xs) auto

lemma NegInf_lt: "NegInf < x \<longleftrightarrow> x \<noteq> NegInf"
  by (cases x) (simp_all add: less_score_def)

lemma full_minimax_not_NegInf:
  assumes "wf_board b"
  shows "full_minimax b depth mx bot_id opps lm \<noteq> NegInf"
  using assms
proof (induction "empties b" arbitrary: b depth mx lm rule: less_induct)
  case less
  note wf = less.prems and IH = less.hyps
  show ?case
  proof (cases "win_score b depth bot_id lm")
    case (Some s)
    then show ?thesis by (simp add: full_minimax.simps[of b])
  next
    case None
    show ?thesis
    proof (cases "depth = 0 \<or> board_is_full b \<or> valid_columns b = []")
      case True
      with None show ?thesis by (auto simp: full_minimax.simps[of b])
    next
      case False
      then obtain c cs where cols: "valid_columns b = c # cs" by (cases "valid_columns b") auto
      have child: "\<exists>child row. drop_disc b p col = Some (child, row, col)
                     \<and> full_minimax child (depth - 1) m' bot_id opps (Some (row, col)) \<noteq> NegInf"
        if "col \<in> set (valid_columns b)" for col p m'
      proof -
        from valid_column_child[OF wf that, of p] obtain row child
          where d: "drop_disc b p col = Some (child, row, col)"
            and w: "wf_board child" and e: "empties child < empties b" by blast
        from IH[OF e w] d show ?thesis by blast
      qed
      show ?thesis
      proof (cases mx)
        case True
        let ?v = "\<lambda>col. case drop_disc b bot_id col of
                          None \<Rightarrow> NegInf
                        | Some (child, row, col) \<Rightarrow>
                            full_minimax child (depth - 1) False bot_id opps (Some (row, col))"
        from child[of c bot_id False] cols have "?v c \<noteq> NegInf" by auto
        moreover have "?v c \<le> maximum (map ?v (valid_columns b))"
          by (rule maximum_ge) (simp add: cols)
        ultimately have "maximum (map ?v (valid_columns b)) \<noteq> NegInf"
          by (metis NegInf_least antisym)
        with None False True show ?thesis by (simp add: full_minimax.simps[of b])
      next
        case mn: False
        let ?v = "\<lambda>col opp. case drop_disc b opp col of
                              None \<Rightarrow> PosInf
                            | Some (child, row, col) \<Rightarrow>
                                full_minimax child (depth - 1) True bot_id opps (Some (row, col))"
        have "\<forall>x \<in> set (concat (map (\<lambda>col. map (?v col) opps) (valid_columns b))). x \<noteq> NegInf"
        proof
          fix x assume "x \<in> set (concat (map (\<lambda>col. map (?v col) opps) (valid_columns b)))"
          then obtain col opp where col: "col \<in> set (valid_columns b)" and x: "x = ?v col opp"
            by auto
          from child[OF col, of opp True] x show "x \<noteq> NegInf" by auto
        qed
        from minimum_not_NegInf[OF this] None False mn show ?thesis
          by (simp add: full_minimax.simps[of b])
      qed
    qed
  qed
qed

lemma child_value_not_NegInf:
  assumes "wf_board b" "col \<in> set (valid_columns b)"
  shows "child_value b bot_id opps depth col \<noteq> NegInf"
proof -
  from valid_column_child[OF assms, of bot_id] obtain row child
    where d: "drop_disc b bot_id col = Some (child, row, col)" and w: "wf_board child"
    by blast
  from full_minimax_not_NegInf[OF w] d show ?thesis by (simp add: child_value_def)
qed


lemma choose_step:
  assumes "wf_board b" "col \<in> set (valid_columns b)"
  shows "\<exists>row child m. find_drop_row b col = Some row \<and> place_disc b row col bot_id = Some child
           \<and> minimax child (depth - 1) False bot_id opps NegInf PosInf (Some (row, col)) nodes
                = Inr (child_value b bot_id opps depth col, m)"
proof -
  from valid_column_child[OF assms, of bot_id] obtain row child
    where r: "find_drop_row b col = Some row" and p: "place_disc b row col bot_id = Some child"
      and d: "drop_disc b bot_id col = Some (child, row, col)" and w: "wf_board child"
    by blast
  from minimax_full_window[OF w, of "depth - 1" False bot_id opps "Some (row, col)" nodes] r p d
  show ?thesis by (auto simp: child_value_def)
qed

text \<open>
  \<open>first_best v b cols bs bm\<close>: the move \<open>bm\<close> is the drop into the first column of \<open>cols\<close>
  whose value is \<open>bs\<close>, every column before it having a smaller value.
\<close>

definition first_best :: "(nat \<Rightarrow> score) \<Rightarrow> board \<Rightarrow> nat list \<Rightarrow> score \<Rightarrow> (nat \<times> nat) option \<Rightarrow> bool" where
  "first_best v b cols bs bm =
     (\<exists>pre c post row. cols = pre @ c # post \<and> bm = Some (row, c)
        \<and> find_drop_row b c = Some row \<and> v c = bs \<and> (\<forall>c' \<in> set pre. v c' < bs))"

lemma first_best_here:
  "find_drop_row b col = Some row \<Longrightarrow> v col = bs \<Longrightarrow> first_best v b (col # cols) bs (Some (row, col))"
  unfolding first_best_def
  by (intro exI[of _ "[]"] exI[of _ col] exI[of _ cols] exI[of _ row]) simp

lemma first_best_later:
  assumes "first_best v b cols bs bm" "v col < bs"
  shows "first_best v b (col # cols) bs bm"
proof -
  from assms(1) obtain pre c post row where c: "cols = pre @ c # post" "bm = Some (row, c)"
    "find_drop_row b c = Some row" "v c = bs" "\<forall>c' \<in> set pre. v c' < bs"
    unfolding first_best_def by blast
  with assms(2) show ?thesis
    unfolding first_best_def
    by (intro exI[of _ "col # pre"] exI[of _ c] exI[of _ post] exI[of _ row]) simp
qed

lemma maximum_gt: "x \<in> set xs \<Longrightarrow> y < x \<Longrightarrow> y < maximum xs"
  using maximum_ge[of x xs] by (meson less_le_trans)

lemma choose_loop_result:
  assumes "wf_board b" "set cols \<subseteq> set (valid_columns b)"
  shows "\<exists>bs bm n'. choose_loop b bot_id opps depth cols best_score best_move nodes = Inr (bs, bm, n')
    \<and> bs = max best_score (maximum (map (child_value b bot_id opps depth) cols))
    \<and> ((\<forall>c \<in> set cols. child_value b bot_id opps depth c \<le> best_score) \<longrightarrow> bm = best_move)
    \<and> (\<not> (\<forall>c \<in> set cols. child_value b bot_id opps depth c \<le> best_score)
          \<longrightarrow> first_best (child_value b bot_id opps depth) b cols bs bm)"
  using assms(2)
proof (induction cols arbitrary: best_score best_move nodes)
  case Nil
  then show ?case by simp
next
  case (Cons col cols)
  let ?v = "child_value b bot_id opps depth"
  let ?M = "maximum (map ?v cols)"
  from Cons.prems have col: "col \<in> set (valid_columns b)" and sub: "set cols \<subseteq> set (valid_columns b)"
    by simp_all
  from choose_step[OF assms(1) col, of bot_id depth opps nodes] obtain row child m
    where r: "find_drop_row b col = Some row" and p: "place_disc b row col bot_id = Some child"
      and mm: "minimax child (depth - 1) False bot_id opps NegInf PosInf (Some (row, col)) nodes
                = Inr (?v col, m)"
    by blast
  have M: "maximum (map ?v (col # cols)) = max (?v col) ?M" by simp
  show ?case
  proof (cases "best_score < ?v col")
    case True
    from Cons.IH[OF sub, of "?v col" "Some (row, col)" m] obtain bs bm n'
      where l: "choose_loop b bot_id opps depth cols (?v col) (Some (row, col)) m = Inr (bs, bm, n')"
        and bs: "bs = max (?v col) ?M"
        and bm1: "(\<forall>c \<in> set cols. ?v c \<le> ?v col) \<longrightarrow> bm = Some (row, col)"
        and bm2: "\<not> (\<forall>c \<in> set cols. ?v c \<le> ?v col) \<longrightarrow> first_best ?v b cols bs bm"
      by blast
    have res: "choose_loop b bot_id opps depth (col # cols) best_score best_move nodes = Inr (bs, bm, n')"
      using r p mm True l by simp
    have "best_score \<le> max (?v col) ?M" using True by (simp add: le_max_iff_disj less_imp_le)
    then have bs': "bs = max best_score (maximum (map ?v (col # cols)))"
      unfolding M bs by (simp add: max_absorb2)
    have fb: "first_best ?v b (col # cols) bs bm"
    proof (cases "\<forall>c \<in> set cols. ?v c \<le> ?v col")
      case True
      with bm1 have "bm = Some (row, col)" by simp
      moreover from True have "?M \<le> ?v col" by (simp add: maximum_le_iff)
      with bs have "?v col = bs" by (simp add: max_absorb1)
      ultimately show ?thesis using first_best_here[OF r, of ?v bs cols] by simp
    next
      case False
      with bm2 have f: "first_best ?v b cols bs bm" by simp
      from False obtain x where "x \<in> set cols" "?v col < ?v x" using not_le by blast
      then have "?v col < ?M" using maximum_gt[of "?v x" "map ?v cols" "?v col"] by simp
      with bs have "?v col < bs" by (simp add: less_max_iff_disj)
      from first_best_later[OF f this] show ?thesis .
    qed
    have na: "\<not> (\<forall>c \<in> set (col # cols). ?v c \<le> best_score)" using True by auto
    from res bs' fb na show ?thesis by blast
  next
    case False
    then have le: "?v col \<le> best_score" by simp
    from Cons.IH[OF sub, of best_score best_move m] obtain bs bm n'
      where l: "choose_loop b bot_id opps depth cols best_score best_move m = Inr (bs, bm, n')"
        and bs: "bs = max best_score ?M"
        and bm1: "(\<forall>c \<in> set cols. ?v c \<le> best_score) \<longrightarrow> bm = best_move"
        and bm2: "\<not> (\<forall>c \<in> set cols. ?v c \<le> best_score) \<longrightarrow> first_best ?v b cols bs bm"
      by blast
    have res: "choose_loop b bot_id opps depth (col # cols) best_score best_move nodes = Inr (bs, bm, n')"
      using r p mm False l by simp
    have "max best_score (max (?v col) ?M) = max best_score ?M"
      using le by (simp add: max.assoc[symmetric] max_absorb1)
    then have bs': "bs = max best_score (maximum (map ?v (col # cols)))"
      unfolding M bs by simp
    show ?thesis
    proof (cases "\<forall>c \<in> set cols. ?v c \<le> best_score")
      case True
      with bm1 have "bm = best_move" by simp
      moreover from True le have "\<forall>c \<in> set (col # cols). ?v c \<le> best_score" by simp
      ultimately show ?thesis using res bs' by blast
    next
      case nall: False
      with bm2 have f: "first_best ?v b cols bs bm" by simp
      from nall obtain x where "x \<in> set cols" "best_score < ?v x" using not_le by blast
      then have "best_score < ?M" using maximum_gt[of "?v x" "map ?v cols" best_score] by simp
      with bs have "best_score < bs" by (simp add: less_max_iff_disj)
      with le have "?v col < bs" by (rule le_less_trans)
      from first_best_later[OF f this] have fb: "first_best ?v b (col # cols) bs bm" .
      have na: "\<not> (\<forall>c \<in> set (col # cols). ?v c \<le> best_score)" using nall by auto
      from res bs' fb na show ?thesis by blast
    qed
  qed
qed


lemma sorted_valid_columns: "sorted (valid_columns b)" "distinct (valid_columns b)"
  by (simp_all add: valid_columns_def sorted_wrt_filter)

lemma first_best_lowest:
  assumes "first_best v b (valid_columns b) bs (Some (row, col))"
  shows "col \<in> set (valid_columns b)" and "find_drop_row b col = Some row" and "v col = bs"
    and "\<forall>c \<in> set (valid_columns b). c < col \<longrightarrow> v c < bs"
proof -
  from assms obtain pre post where c: "valid_columns b = pre @ col # post"
    and r: "find_drop_row b col = Some row" and v: "v col = bs" and p: "\<forall>c' \<in> set pre. v c' < bs"
    unfolding first_best_def by auto
  from c show "col \<in> set (valid_columns b)" by simp
  from r show "find_drop_row b col = Some row" .
  from v show "v col = bs" .
  from sorted_valid_columns(1)[of b] c have "\<forall>y \<in> set post. col \<le> y"
    by (simp add: sorted_append)
  then have "c \<in> set pre" if "c \<in> set (valid_columns b)" "c < col" for c
    using that c by auto
  with p show "\<forall>c \<in> set (valid_columns b). c < col \<longrightarrow> v c < bs" by blast
qed

lemma choose_best_move_result:
  assumes "wf_board b" "valid_columns b \<noteq> []"
  shows "\<exists>res. choose_best_move b bot_id opponent_ids depth = Inr res
     \<and> sr_score res = maximum (map (child_value b bot_id (resolve_opponents b bot_id opponent_ids) depth)
                                  (valid_columns b))
     \<and> first_best (child_value b bot_id (resolve_opponents b bot_id opponent_ids) depth) b
          (valid_columns b) (sr_score res) (Some (sr_row res, sr_column res))
     \<and> sr_depth res = depth"
proof -
  let ?opps = "resolve_opponents b bot_id opponent_ids"
  let ?v = "child_value b bot_id ?opps depth"
  from choose_loop_result[OF assms(1) subset_refl, of bot_id ?opps depth NegInf None 0]
  obtain bs bm n' where l: "choose_loop b bot_id ?opps depth (valid_columns b) NegInf None 0 = Inr (bs, bm, n')"
    and bs: "bs = maximum (map ?v (valid_columns b))"
    and fb: "\<not> (\<forall>c \<in> set (valid_columns b). ?v c \<le> NegInf)
               \<longrightarrow> first_best ?v b (valid_columns b) bs bm"
    by auto
  from assms(2) obtain c where c: "c \<in> set (valid_columns b)" by (cases "valid_columns b") auto
  from child_value_not_NegInf[OF assms(1) c, of bot_id ?opps depth] have "\<not> ?v c \<le> NegInf"
    by (metis NegInf_least antisym)
  with c fb have f: "first_best ?v b (valid_columns b) bs bm" by blast
  then obtain row col where bm: "bm = Some (row, col)" unfolding first_best_def by blast
  from l bm assms(2)
  have "choose_best_move b bot_id opponent_ids depth
          = Inr \<lparr>sr_column = col, sr_row = row, sr_score = bs, sr_depth = depth, sr_nodes = n'\<rparr>"
    by (simp add: choose_best_move_def Let_def)
  with bs f bm show ?thesis by simp
qed

text \<open>
  C1. On every board of the grid and for every depth, the search with pruning returns what
  the unpruned search returns: at every node and for every window \<open>alpha < beta\<close>,
  \<^verbatim>\<open>minimax\<close> returns without error a score that determines the full minimax value as far
  as the window needs it (both loops of both layers, with their breaks); with the full
  window it is that value, and the score \<^verbatim>\<open>choose_best_move\<close> reports is the best value of
  the unpruned search. A board with no playable column is refused (ValueError).
\<close>

theorem pruned_search_equals_full_search:
  assumes "wf_board b"
  shows "(valid_columns b = [] \<longrightarrow> choose_best_move b bot_id opponent_ids depth = Inl ValueError)
    \<and> (valid_columns b \<noteq> [] \<longrightarrow>
         (\<exists>res. choose_best_move b bot_id opponent_ids depth = Inr res
            \<and> sr_score res
                = full_search_score b bot_id (resolve_opponents b bot_id opponent_ids) depth))
    \<and> (\<forall>alpha beta. alpha < beta \<longrightarrow>
         (\<exists>s m. minimax b depth maximizing bot_id opponents alpha beta last_move nodes = Inr (s, m)
            \<and> ab_sound alpha beta (full_minimax b depth maximizing bot_id opponents last_move) s))
    \<and> (\<exists>m. minimax b depth maximizing bot_id opponents NegInf PosInf last_move nodes
              = Inr (full_minimax b depth maximizing bot_id opponents last_move, m))"
proof (intro conjI impI allI)
  assume "valid_columns b = []"
  then show "choose_best_move b bot_id opponent_ids depth = Inl ValueError"
    by (simp add: choose_best_move_def)
next
  assume "valid_columns b \<noteq> []"
  from choose_best_move_result[OF assms this, of bot_id opponent_ids depth]
  show "\<exists>res. choose_best_move b bot_id opponent_ids depth = Inr res
            \<and> sr_score res = full_search_score b bot_id (resolve_opponents b bot_id opponent_ids) depth"
    by (auto simp: full_search_score_eq)
next
  fix alpha beta :: score assume "alpha < beta"
  from minimax_sound[OF assms this]
  show "\<exists>s m. minimax b depth maximizing bot_id opponents alpha beta last_move nodes = Inr (s, m)
            \<and> ab_sound alpha beta (full_minimax b depth maximizing bot_id opponents last_move) s" .
next
  from minimax_full_window[OF assms]
  show "\<exists>m. minimax b depth maximizing bot_id opponents NegInf PosInf last_move nodes
              = Inr (full_minimax b depth maximizing bot_id opponents last_move, m)" .
qed

theorem pruned_search_equals_full_search_witness:
  "wf_board empty_board
   \<and> valid_columns empty_board \<noteq> []
   \<and> (\<exists>res. choose_best_move empty_board ''BOT'' (Some [''P1'', ''P2'']) 4 = Inr res
          \<and> sr_score res
              = full_search_score empty_board ''BOT''
                  (resolve_opponents empty_board ''BOT'' (Some [''P1'', ''P2''])) 4)
   \<and> (\<exists>m. minimax empty_board 3 False ''BOT'' [''P1'', ''P2''] NegInf PosInf None 0
            = Inr (full_minimax empty_board 3 False ''BOT'' [''P1'', ''P2''] None, m))"
proof -
  have wf: "wf_board empty_board" by code_simp
  have vc: "valid_columns empty_board \<noteq> []" by code_simp
  from pruned_search_equals_full_search[OF wf, where bot_id = "''BOT''"
      and opponent_ids = "Some [''P1'', ''P2'']" and depth = 4] vc
  have 1: "\<exists>res. choose_best_move empty_board ''BOT'' (Some [''P1'', ''P2'']) 4 = Inr res
          \<and> sr_score res
              = full_search_score empty_board ''BOT''
                  (resolve_opponents empty_board ''BOT'' (Some [''P1'', ''P2''])) 4"
    by blast
  from pruned_search_equals_full_search[OF wf, where bot_id = "''BOT''" and depth = 3
      and maximizing = False and opponents = "[''P1'', ''P2'']" and last_move = None and nodes = 0]
  have 2: "\<exists>m. minimax empty_board 3 False ''BOT'' [''P1'', ''P2''] NegInf PosInf None 0
            = Inr (full_minimax empty_board 3 False ''BOT'' [''P1'', ''P2''] None, m)"
    by blast
  from wf vc 1 2 show ?thesis by blast
qed

text \<open>
  C2. On a board with at least one playable column, for every depth, \<^verbatim>\<open>choose_best_move\<close>
  returns a valid column with its drop row and its search value as the score; no valid
  column has a greater search value, and every valid column of lower index has a smaller
  one: it is the lowest-indexed column that attains the maximum.
\<close>

theorem choose_best_move_first_maximum:
  assumes "wf_board b" and "valid_columns b \<noteq> []"
  shows "\<exists>res. choose_best_move b bot_id opponent_ids depth = Inr res
     \<and> sr_column res \<in> set (valid_columns b)
     \<and> find_drop_row b (sr_column res) = Some (sr_row res)
     \<and> sr_score res = search_value b bot_id (resolve_opponents b bot_id opponent_ids) depth (sr_column res)
     \<and> (\<forall>c \<in> set (valid_columns b).
           search_value b bot_id (resolve_opponents b bot_id opponent_ids) depth c \<le> sr_score res)
     \<and> (\<forall>c \<in> set (valid_columns b). c < sr_column res \<longrightarrow>
           search_value b bot_id (resolve_opponents b bot_id opponent_ids) depth c < sr_score res)
     \<and> sr_depth res = depth"
proof -
  let ?opps = "resolve_opponents b bot_id opponent_ids"
  let ?v = "child_value b bot_id ?opps depth"
  from choose_best_move_result[OF assms, of bot_id opponent_ids depth] obtain res
    where r: "choose_best_move b bot_id opponent_ids depth = Inr res"
      and s: "sr_score res = maximum (map ?v (valid_columns b))"
      and f: "first_best ?v b (valid_columns b) (sr_score res) (Some (sr_row res, sr_column res))"
      and d: "sr_depth res = depth"
    by blast
  note fb = first_best_lowest[OF f]
  have sv: "search_value b bot_id ?opps depth c = ?v c" if "c \<in> set (valid_columns b)" for c
    using search_value_eq[OF assms(1) that] .
  have ub: "\<forall>c \<in> set (valid_columns b). search_value b bot_id ?opps depth c \<le> sr_score res"
  proof
    fix c assume c: "c \<in> set (valid_columns b)"
    then have "?v c \<le> maximum (map ?v (valid_columns b))" by (intro maximum_ge) simp
    with sv[OF c] s show "search_value b bot_id ?opps depth c \<le> sr_score res" by simp
  qed
  have lo: "\<forall>c \<in> set (valid_columns b). c < sr_column res \<longrightarrow>
           search_value b bot_id ?opps depth c < sr_score res"
    using fb(4) sv by simp
  from r fb(1) fb(2) fb(3) sv[OF fb(1)] ub lo d show ?thesis by auto
qed

theorem choose_best_move_first_maximum_witness:
  "wf_board (board_of [(9, 3, ''BOT''), (8, 3, ''BOT''), (7, 3, ''BOT'')])
   \<and> valid_columns (board_of [(9, 3, ''BOT''), (8, 3, ''BOT''), (7, 3, ''BOT'')]) \<noteq> []
   \<and> choose_best_move (board_of [(9, 3, ''BOT''), (8, 3, ''BOT''), (7, 3, ''BOT'')]) ''BOT'' (Some [''P1'']) 1
       = Inr \<lparr>sr_column = 3, sr_row = 6, sr_score = Fin 10000, sr_depth = 1, sr_nodes = 10\<rparr>
   \<and> search_value (board_of [(9, 3, ''BOT''), (8, 3, ''BOT''), (7, 3, ''BOT'')]) ''BOT''
         (resolve_opponents (board_of [(9, 3, ''BOT''), (8, 3, ''BOT''), (7, 3, ''BOT'')]) ''BOT'' (Some [''P1''])) 1 3
       = Fin 10000"
proof -
  define b where "b = board_of [(9, 3, ''BOT''), (8, 3, ''BOT''), (7, 3, ''BOT'')]"
  have wf: "wf_board b" unfolding b_def by code_simp
  have vc: "valid_columns b \<noteq> []" unfolding b_def by code_simp
  have ev: "choose_best_move b ''BOT'' (Some [''P1'']) 1
       = Inr \<lparr>sr_column = 3, sr_row = 6, sr_score = Fin 10000, sr_depth = 1, sr_nodes = 10\<rparr>"
    unfolding b_def by code_simp
  from choose_best_move_first_maximum[OF wf vc, of "''BOT''" "Some [''P1'']" 1] ev
  have "search_value b ''BOT'' (resolve_opponents b ''BOT'' (Some [''P1''])) 1 3 = Fin 10000"
    by auto
  with wf vc ev show ?thesis unfolding b_def by blast
qed

end
